theory Spec2Isabelle
  imports Main "HOL-Library.Char_ord" "HOL-Library.List_Lexorder" "HOL-Library.Word"
begin

section \<open>The ordered index: \<open>storage::BPlusTree<Key, Value, Order = 4>\<close>\<close>


text \<open>
  Every internal node owns its children exclusively (no child is ever reachable from two
  parents), so the children are embedded by value.  The only aliasing reference of the
  structure is \<open>LeafNode::next\<close>: it points at a leaf that is owned by some other
  parent.  A leaf therefore carries the address it was allocated at, \<open>next\<close> holds an
  address, and following \<open>next\<close> looks the address up in the tree, which plays the
  part of the store.  \<open>std::make_shared<LeafNode>()\<close> takes the next free address
  from a counter that is threaded through the insertion.

  Behaviour the C++ standard leaves undefined (indexing a vector out of range,
  \<open>front()\<close> of an empty vector) is the error value \<open>OutOfBounds\<close>.
\<close>

datatype bt_error = OutOfBounds | DanglingNext

datatype ('k, 'v) Node =
    LeafNode (addr: nat) (lkeys: "'k list") (lvalues: "'v list") (lnext: "nat option")
  | InternalNode (ikeys: "'k list") (children: "('k, 'v) Node list")

definition Order :: nat where
  "Order = 4"

text \<open>\<open>std::lower_bound\<close>: position of the first element that is not less than the key;
  \<open>std::upper_bound\<close>: position of the first element that is greater than the key.\<close>

definition lower_bound :: "('k::linorder) list \<Rightarrow> 'k \<Rightarrow> nat" where
  "lower_bound ks key = length (takeWhile (\<lambda>x. x < key) ks)"

definition upper_bound :: "('k::linorder) list \<Rightarrow> 'k \<Rightarrow> nat" where
  "upper_bound ks key = length (takeWhile (\<lambda>x. \<not> key < x) ks)"

text \<open>\<open>vector::insert(begin() + idx, x)\<close> and \<open>vector::erase(begin() + idx)\<close>.\<close>

definition insert_at :: "nat \<Rightarrow> 'a \<Rightarrow> 'a list \<Rightarrow> 'a list" where
  "insert_at idx x xs = take idx xs @ x # drop idx xs"

definition erase_at :: "nat \<Rightarrow> 'a list \<Rightarrow> 'a list" where
  "erase_at idx xs = take idx xs @ drop (Suc idx) xs"

type_synonym ('k, 'v) InsertResult = "('k \<times> ('k, 'v) Node) option"

definition LeafNode_insert ::
  "('k::linorder) \<Rightarrow> 'v \<Rightarrow> nat \<Rightarrow> nat \<Rightarrow> 'k list \<Rightarrow> 'v list \<Rightarrow> nat option
     \<Rightarrow> bt_error + (('k, 'v) Node \<times> ('k, 'v) InsertResult \<times> nat)" where
  "LeafNode_insert key val fresh a ks vs nx =
    (let idx = lower_bound ks key in
     if idx < length ks \<and> ks ! idx = key then
       (if idx < length vs then Inr (LeafNode a ks (vs[idx := val]) nx, None, fresh)
        else Inl OutOfBounds)
     else if length vs < idx then Inl OutOfBounds
     else
       (let ks' = insert_at idx key ks; vs' = insert_at idx val vs in
        if Order < length ks' then
          (let mid = length ks' div 2 in
           if length vs' < mid then Inl OutOfBounds
           else (case drop mid ks' of
                   [] \<Rightarrow> Inl OutOfBounds
                 | front # _ \<Rightarrow>
                     Inr (LeafNode a (take mid ks') (take mid vs') (Some fresh),
                          Some (front, LeafNode fresh (drop mid ks') (drop mid vs') nx),
                          Suc fresh)))
        else Inr (LeafNode a ks' vs' nx, None, fresh)))"

function Node_insert ::
  "('k::linorder) \<Rightarrow> 'v \<Rightarrow> nat \<Rightarrow> ('k, 'v) Node
     \<Rightarrow> bt_error + (('k, 'v) Node \<times> ('k, 'v) InsertResult \<times> nat)" where
  "Node_insert key val fresh (LeafNode a ks vs nx) = LeafNode_insert key val fresh a ks vs nx"
| "Node_insert key val fresh (InternalNode ks cs) =
    (let idx = upper_bound ks key in
     if idx < length cs then
       (case Node_insert key val fresh (cs ! idx) of
          Inl e \<Rightarrow> Inl e
        | Inr (c', None, fresh') \<Rightarrow> Inr (InternalNode ks (cs[idx := c']), None, fresh')
        | Inr (c', Some (rkey, rnode), fresh') \<Rightarrow>
            (let ks' = insert_at idx rkey ks;
                 cs' = insert_at (Suc idx) rnode (cs[idx := c']) in
             if Order < length ks' then
               (let mid = length ks' div 2 in
                if mid < length ks' \<and> Suc mid \<le> length cs' then
                  Inr (InternalNode (take mid ks') (take (Suc mid) cs'),
                       Some (ks' ! mid, InternalNode (drop (Suc mid) ks') (drop (Suc mid) cs')),
                       fresh')
                else Inl OutOfBounds)
             else Inr (InternalNode ks' cs', None, fresh')))
     else Inl OutOfBounds)"
  by pat_completeness auto

termination
proof (relation "measure (\<lambda>(key, val, fresh, n). size n)")
  fix key :: "'k::linorder" and val :: 'v and fresh :: nat and ks :: "'k list"
    and cs :: "('k, 'v) Node list" and idx :: nat
  assume "idx = upper_bound ks key" and "idx < length cs"
  then have "cs ! idx \<in> set cs" by simp
  then have "size (cs ! idx) \<le> size_list size cs" by (rule size_list_estimation') simp
  then show "((key, val, fresh, cs ! idx), (key, val, fresh, InternalNode ks cs))
      \<in> measure (\<lambda>(key, val, fresh, n). size n)" by simp
qed simp

function Node_find :: "('k::linorder) \<Rightarrow> ('k, 'v) Node \<Rightarrow> bt_error + 'v option" where
  "Node_find key (LeafNode a ks vs nx) =
    (let idx = lower_bound ks key in
     if idx < length ks \<and> ks ! idx = key then
       (if idx < length vs then Inr (Some (vs ! idx)) else Inl OutOfBounds)
     else Inr None)"
| "Node_find key (InternalNode ks cs) =
    (let idx = upper_bound ks key in
     if idx < length cs then Node_find key (cs ! idx) else Inl OutOfBounds)"
  by pat_completeness auto

termination
proof (relation "measure (\<lambda>(key, n). size n)")
  fix key :: "'k::linorder" and ks :: "'k list" and cs :: "('k, 'v) Node list" and idx :: nat
  assume "idx = upper_bound ks key" and "idx < length cs"
  then have "cs ! idx \<in> set cs" by simp
  then have "size (cs ! idx) \<le> size_list size cs" by (rule size_list_estimation') simp
  then show "((key, cs ! idx), (key, InternalNode ks cs))
      \<in> measure (\<lambda>(key, n). size n)" by simp
qed simp

function Node_update ::
  "('k::linorder) \<Rightarrow> 'v \<Rightarrow> ('k, 'v) Node \<Rightarrow> bt_error + (('k, 'v) Node \<times> bool)" where
  "Node_update key val (LeafNode a ks vs nx) =
    (let idx = lower_bound ks key in
     if idx < length ks \<and> ks ! idx = key then
       (if idx < length vs then Inr (LeafNode a ks (vs[idx := val]) nx, True)
        else Inl OutOfBounds)
     else Inr (LeafNode a ks vs nx, False))"
| "Node_update key val (InternalNode ks cs) =
    (let idx = upper_bound ks key in
     if idx < length cs then
       (case Node_update key val (cs ! idx) of
          Inl e \<Rightarrow> Inl e
        | Inr (c', found) \<Rightarrow> Inr (InternalNode ks (cs[idx := c']), found))
     else Inl OutOfBounds)"
  by pat_completeness auto

termination
proof (relation "measure (\<lambda>(key, val, n). size n)")
  fix key :: "'k::linorder" and ks :: "'k list" and cs :: "('k, 'v) Node list" and idx :: nat and val :: 'v
  assume "idx = upper_bound ks key" and "idx < length cs"
  then have "cs ! idx \<in> set cs" by simp
  then have "size (cs ! idx) \<le> size_list size cs" by (rule size_list_estimation') simp
  then show "((key, val, cs ! idx), (key, val, InternalNode ks cs))
      \<in> measure (\<lambda>(key, val, n). size n)" by simp
qed simp

function Node_remove ::
  "('k::linorder) \<Rightarrow> ('k, 'v) Node \<Rightarrow> bt_error + (('k, 'v) Node \<times> bool)" where
  "Node_remove key (LeafNode a ks vs nx) =
    (let idx = lower_bound ks key in
     if idx < length ks \<and> ks ! idx = key then
       (if idx < length vs then Inr (LeafNode a (erase_at idx ks) (erase_at idx vs) nx, True)
        else Inl OutOfBounds)
     else Inr (LeafNode a ks vs nx, False))"
| "Node_remove key (InternalNode ks cs) =
    (let idx = upper_bound ks key in
     if idx < length cs then
       (case Node_remove key (cs ! idx) of
          Inl e \<Rightarrow> Inl e
        | Inr (c', found) \<Rightarrow> Inr (InternalNode ks (cs[idx := c']), found))
     else Inl OutOfBounds)"
  by pat_completeness auto

termination
proof (relation "measure (\<lambda>(key, n). size n)")
  fix key :: "'k::linorder" and ks :: "'k list" and cs :: "('k, 'v) Node list" and idx :: nat
  assume "idx = upper_bound ks key" and "idx < length cs"
  then have "cs ! idx \<in> set cs" by simp
  then have "size (cs ! idx) \<le> size_list size cs" by (rule size_list_estimation') simp
  then show "((key, cs ! idx), (key, InternalNode ks cs))
      \<in> measure (\<lambda>(key, n). size n)" by simp
qed simp

text \<open>The leaves of a subtree from left to right, and the dereferencing of a leaf
  address in the store.\<close>

fun leaves :: "('k, 'v) Node \<Rightarrow> ('k, 'v) Node list" where
  "leaves (LeafNode a ks vs nx) = [LeafNode a ks vs nx]"
| "leaves (InternalNode ks cs) = concat (map leaves cs)"

definition deref :: "('k, 'v) Node \<Rightarrow> nat \<Rightarrow> ('k, 'v) Node option" where
  "deref store a = List.find (\<lambda>l. addr l = a) (leaves store)"

text \<open>The \<open>while\<close> loop of \<open>LeafNode::range_scan\<close>, started at the iterator that
  \<open>lower_bound\<close> returned: the callback \<open>func\<close> is called on every visited pair, and
  the model returns the pairs it was called on, in the order of the calls.\<close>

fun visit_while :: "('k::linorder) \<Rightarrow> 'k list \<Rightarrow> 'v list \<Rightarrow> bt_error + ('k \<times> 'v) list" where
  "visit_while end [] vs = Inr []"
| "visit_while end (k # ks) vs =
    (if k \<le> end then
       (case vs of
          [] \<Rightarrow> Inl OutOfBounds
        | v # vs' \<Rightarrow>
            (case visit_while end ks vs' of
               Inl e \<Rightarrow> Inl e
             | Inr visited \<Rightarrow> Inr ((k, v) # visited)))
     else Inr [])"

text \<open>\<open>LeafNode::range_scan\<close> calls itself on the next leaf.  Nothing in the function
  bounds the length of the chain, so the model takes fuel, one unit for each leaf whose
  \<open>range_scan\<close> is entered; \<open>None\<close> means that the fuel ran out.\<close>

fun LeafNode_range_scan ::
  "nat \<Rightarrow> ('k::linorder, 'v) Node \<Rightarrow> 'k \<Rightarrow> 'k \<Rightarrow> 'k list \<Rightarrow> 'v list \<Rightarrow> nat option
     \<Rightarrow> (bt_error + ('k \<times> 'v) list) option" where
  "LeafNode_range_scan 0 store start end ks vs nx = None"
| "LeafNode_range_scan (Suc fuel) store start end ks vs nx =
    (let idx = lower_bound ks start in
     case visit_while end (drop idx ks) (drop idx vs) of
       Inl e \<Rightarrow> Some (Inl e)
     | Inr visited \<Rightarrow>
         (case nx of
            None \<Rightarrow> Some (Inr visited)
          | Some a \<Rightarrow>
              (case deref store a of
                 None \<Rightarrow> Some (Inl DanglingNext)
               | Some (InternalNode _ _) \<Rightarrow> Some (Inl DanglingNext)
               | Some (LeafNode a' ks' vs' nx') \<Rightarrow>
                   (case ks' of
                      [] \<Rightarrow> Some (Inl OutOfBounds)
                    | front # _ \<Rightarrow>
                        if front \<le> end then
                          (case LeafNode_range_scan fuel store start end ks' vs' nx' of
                             None \<Rightarrow> None
                           | Some (Inl e) \<Rightarrow> Some (Inl e)
                           | Some (Inr more) \<Rightarrow> Some (Inr (visited @ more)))
                        else Some (Inr visited)))))"

function Node_range_scan ::
  "nat \<Rightarrow> ('k::linorder, 'v) Node \<Rightarrow> 'k \<Rightarrow> 'k \<Rightarrow> ('k, 'v) Node
     \<Rightarrow> (bt_error + ('k \<times> 'v) list) option" where
  "Node_range_scan fuel store start end (LeafNode a ks vs nx) =
     LeafNode_range_scan fuel store start end ks vs nx"
| "Node_range_scan fuel store start end (InternalNode ks cs) =
    (let idx = upper_bound ks start in
     if idx < length cs then Node_range_scan fuel store start end (cs ! idx)
     else Some (Inl OutOfBounds))"
  by pat_completeness auto

termination
proof (relation "measure (\<lambda>(fuel, store, start, end, n). size n)")
  fix start :: "'k::linorder" and ks :: "'k list" and cs :: "('k, 'v) Node list" and idx :: nat
    and fuel :: nat and store :: "('k, 'v) Node" and "end" :: 'k
  assume "idx = upper_bound ks start" and "idx < length cs"
  then have "cs ! idx \<in> set cs" by simp
  then have "size (cs ! idx) \<le> size_list size cs" by (rule size_list_estimation') simp
  then show "((fuel, store, start, end, cs ! idx), (fuel, store, start, end, InternalNode ks cs))
      \<in> measure (\<lambda>(fuel, store, start, end, n). size n)" by simp
qed simp

text \<open>The tree object: the root pointer, and the allocator's next free leaf address.\<close>

record ('k, 'v) BPlusTree =
  root :: "('k, 'v) Node"
  next_addr :: nat

definition BPlusTree_new :: "('k, 'v) BPlusTree" where
  "BPlusTree_new = \<lparr>root = LeafNode 0 [] [] None, next_addr = 1\<rparr>"

definition BPlusTree_insert ::
  "('k::linorder) \<Rightarrow> 'v \<Rightarrow> ('k, 'v) BPlusTree \<Rightarrow> bt_error + ('k, 'v) BPlusTree" where
  "BPlusTree_insert key val t =
    (case Node_insert key val (next_addr t) (root t) of
       Inl e \<Rightarrow> Inl e
     | Inr (r', None, fresh') \<Rightarrow> Inr \<lparr>root = r', next_addr = fresh'\<rparr>
     | Inr (r', Some (rkey, rnode), fresh') \<Rightarrow>
         Inr \<lparr>root = InternalNode [rkey] [r', rnode], next_addr = fresh'\<rparr>)"

definition BPlusTree_find :: "('k::linorder) \<Rightarrow> ('k, 'v) BPlusTree \<Rightarrow> bt_error + 'v option" where
  "BPlusTree_find key t = Node_find key (root t)"

definition BPlusTree_update ::
  "('k::linorder) \<Rightarrow> 'v \<Rightarrow> ('k, 'v) BPlusTree \<Rightarrow> bt_error + (('k, 'v) BPlusTree \<times> bool)" where
  "BPlusTree_update key val t =
    (case Node_update key val (root t) of
       Inl e \<Rightarrow> Inl e
     | Inr (r', found) \<Rightarrow> Inr (t\<lparr>root := r'\<rparr>, found))"

definition BPlusTree_remove ::
  "('k::linorder) \<Rightarrow> ('k, 'v) BPlusTree \<Rightarrow> bt_error + (('k, 'v) BPlusTree \<times> bool)" where
  "BPlusTree_remove key t =
    (case Node_remove key (root t) of
       Inl e \<Rightarrow> Inl e
     | Inr (LeafNode a ks vs nx, result) \<Rightarrow> Inr (t\<lparr>root := LeafNode a ks vs nx\<rparr>, result)
     | Inr (InternalNode ks cs, result) \<Rightarrow>
         (if result \<and> ks = [] then
            (case cs of
               [] \<Rightarrow> Inl OutOfBounds
             | c # _ \<Rightarrow> Inr (t\<lparr>root := c\<rparr>, result))
          else Inr (t\<lparr>root := InternalNode ks cs\<rparr>, result)))"

definition BPlusTree_range_scan ::
  "nat \<Rightarrow> ('k::linorder) \<Rightarrow> 'k \<Rightarrow> ('k, 'v) BPlusTree \<Rightarrow> (bt_error + ('k \<times> 'v) list) option" where
  "BPlusTree_range_scan fuel start end t = Node_range_scan fuel (root t) start end (root t)"

text \<open>Client sequences of index operations, run from left to right; the first
  undefined behaviour ends the run.\<close>

datatype ('k, 'v) bt_op = BtInsert 'k 'v | BtUpdate 'k 'v | BtRemove 'k

fun BPlusTree_apply ::
  "('k::linorder, 'v) bt_op \<Rightarrow> ('k, 'v) BPlusTree \<Rightarrow> bt_error + ('k, 'v) BPlusTree" where
  "BPlusTree_apply (BtInsert k v) t = BPlusTree_insert k v t"
| "BPlusTree_apply (BtUpdate k v) t =
    (case BPlusTree_update k v t of Inl e \<Rightarrow> Inl e | Inr (t', _) \<Rightarrow> Inr t')"
| "BPlusTree_apply (BtRemove k) t =
    (case BPlusTree_remove k t of Inl e \<Rightarrow> Inl e | Inr (t', _) \<Rightarrow> Inr t')"

fun BPlusTree_run ::
  "('k::linorder, 'v) bt_op list \<Rightarrow> ('k, 'v) BPlusTree \<Rightarrow> bt_error + ('k, 'v) BPlusTree" where
  "BPlusTree_run [] t = Inr t"
| "BPlusTree_run (op # ops) t =
    (case BPlusTree_apply op t of Inl e \<Rightarrow> Inl e | Inr t' \<Rightarrow> BPlusTree_run ops t')"

text \<open>
  The class has no iterator.  The traversal that starts at the leftmost leaf and follows
  the \<open>next\<close> links is written here as a client would write it with access to the
  nodes: descend through \<open>children.front()\<close> to the first leaf, then collect each
  leaf's keys and move on to \<open>next\<close> until it is null.  As in \<open>range_scan\<close>, the
  walk along the chain takes fuel, one unit for each leaf.
\<close>

fun leftmost_leaf :: "('k, 'v) Node \<Rightarrow> ('k, 'v) Node option" where
  "leftmost_leaf (LeafNode a ks vs nx) = Some (LeafNode a ks vs nx)"
| "leftmost_leaf (InternalNode ks []) = None"
| "leftmost_leaf (InternalNode ks (c # cs)) = leftmost_leaf c"

fun chain_keys :: "nat \<Rightarrow> ('k, 'v) Node \<Rightarrow> ('k, 'v) Node \<Rightarrow> 'k list option" where
  "chain_keys 0 store l = None"
| "chain_keys (Suc fuel) store (InternalNode ks cs) = None"
| "chain_keys (Suc fuel) store (LeafNode a ks vs nx) =
    (case nx of
       None \<Rightarrow> Some ks
     | Some b \<Rightarrow>
         (case deref store b of
            None \<Rightarrow> None
          | Some l' \<Rightarrow>
              (case chain_keys fuel store l' of None \<Rightarrow> None | Some further \<Rightarrow> Some (ks @ further))))"

definition leaf_chain :: "nat \<Rightarrow> ('k, 'v) BPlusTree \<Rightarrow> 'k list option" where
  "leaf_chain fuel t =
    (case leftmost_leaf (root t) of None \<Rightarrow> None | Some l \<Rightarrow> chain_keys fuel (root t) l)"

text \<open>A run that only inserts the given pairs, in the order of the list.\<close>

definition inserts_of :: "('k \<times> 'v) list \<Rightarrow> ('k, 'v) bt_op list" where
  "inserts_of kvs = map (\<lambda>(k, v). BtInsert k v) kvs"

section \<open>Transactions: \<open>database/transaction.hpp\<close> and the transaction-aware table\<close>


text \<open>
  \<open>Transaction\<close> keeps, for each table name, a copy of the table's rows.  The manager
  is a singleton that hands out 64-bit identifiers and owns the live transactions; its
  mutex serialises calls and has no other effect in a single thread.  A
  \<open>std::runtime_error\<close> is the error value \<open>RuntimeError\<close>; indexing a vector out of range
  is \<open>UndefinedBehaviour\<close>.
\<close>

datatype exn = RuntimeError | UndefinedBehaviour

datatype State = ACTIVE | COMMITTED | ABORTED

record 'v Transaction =
  tx_id :: "64 word"
  tx_state :: State
  table_states :: "string \<rightharpoonup> 'v list list"

definition Transaction_new :: "64 word \<Rightarrow> 'v Transaction" where
  "Transaction_new i = \<lparr>tx_id = i, tx_state = ACTIVE, table_states = Map.empty\<rparr>"

definition add_table_state :: "string \<Rightarrow> 'v list list \<Rightarrow> 'v Transaction \<Rightarrow> 'v Transaction" where
  "add_table_state table_name st t = t\<lparr>table_states := (table_states t)(table_name \<mapsto> st)\<rparr>"

definition get_table_state :: "string \<Rightarrow> 'v Transaction \<Rightarrow> exn + 'v list list" where
  "get_table_state table_name t =
    (case table_states t table_name of None \<Rightarrow> Inl RuntimeError | Some st \<Rightarrow> Inr st)"

definition set_state :: "State \<Rightarrow> 'v Transaction \<Rightarrow> 'v Transaction" where
  "set_state s t = t\<lparr>tx_state := s\<rparr>"

record 'v TransactionManager =
  next_transaction_id :: "64 word"
  transactions :: "64 word \<rightharpoonup> 'v Transaction"

definition TransactionManager_new :: "'v TransactionManager" where
  "TransactionManager_new = \<lparr>next_transaction_id = 1, transactions = Map.empty\<rparr>"

definition begin_transaction :: "'v TransactionManager \<Rightarrow> 64 word \<times> 'v TransactionManager" where
  "begin_transaction tm =
    (let i = next_transaction_id tm in
     (i, \<lparr>next_transaction_id = i + 1, transactions = (transactions tm)(i \<mapsto> Transaction_new i)\<rparr>))"

text \<open>\<open>commit_transaction\<close> and \<open>abort_transaction\<close> set the state of the record and then
  erase the record from the map, so the state they set is gone with it.\<close>

definition commit_transaction :: "64 word \<Rightarrow> 'v TransactionManager \<Rightarrow> exn + 'v TransactionManager" where
  "commit_transaction i tm =
    (case transactions tm i of
       None \<Rightarrow> Inl RuntimeError
     | Some t \<Rightarrow>
         (let tm' = tm\<lparr>transactions := (transactions tm)(i \<mapsto> set_state COMMITTED t)\<rparr>
          in Inr (tm'\<lparr>transactions := (transactions tm')(i := None)\<rparr>)))"

definition abort_transaction :: "64 word \<Rightarrow> 'v TransactionManager \<Rightarrow> exn + 'v TransactionManager" where
  "abort_transaction i tm =
    (case transactions tm i of
       None \<Rightarrow> Inl RuntimeError
     | Some t \<Rightarrow>
         (let tm' = tm\<lparr>transactions := (transactions tm)(i \<mapsto> set_state ABORTED t)\<rparr>
          in Inr (tm'\<lparr>transactions := (transactions tm')(i := None)\<rparr>)))"

definition get_transaction :: "64 word \<Rightarrow> 'v TransactionManager \<Rightarrow> exn + 'v Transaction" where
  "get_transaction i tm =
    (case transactions tm i of None \<Rightarrow> Inl RuntimeError | Some t \<Rightarrow> Inr t)"

text \<open>
  The transaction-aware \<open>Table\<close>.  Its headers \<open>column.hpp\<close> and \<open>index.hpp\<close> are not
  part of the sources, so \<open>Column::validate_value\<close>, \<open>Index::column_index\<close> and
  \<open>Index::insert\<close> are parameters of the model, and columns, values and indexes are type
  parameters.  \<open>indexes_\<close> is an unordered map; the list gives the order in which the
  loop meets its entries.
\<close>

record ('c, 'v, 'i) TxTable =
  tname :: string
  tcolumns :: "'c list"
  trows :: "'v list list"
  tindexes :: "(string \<times> 'i) list"

fun insert_indexes ::
  "('i \<Rightarrow> nat) \<Rightarrow> ('i \<Rightarrow> 'v \<Rightarrow> nat \<Rightarrow> 'i) \<Rightarrow> 'v list \<Rightarrow> nat \<Rightarrow> (string \<times> 'i) list
     \<Rightarrow> exn + (string \<times> 'i) list" where
  "insert_indexes column_index index_insert vals pos [] = Inr []"
| "insert_indexes column_index index_insert vals pos ((nm, ix) # ixs) =
    (if column_index ix < length vals then
       (case insert_indexes column_index index_insert vals pos ixs of
          Inl e \<Rightarrow> Inl e
        | Inr ixs' \<Rightarrow> Inr ((nm, index_insert ix (vals ! column_index ix) pos) # ixs'))
     else Inl UndefinedBehaviour)"

text \<open>The state that \<open>Table::insert\<close> works on is the table itself and the singleton
  manager.\<close>

definition Table_insert ::
  "('c \<Rightarrow> 'v \<Rightarrow> bool) \<Rightarrow> ('i \<Rightarrow> nat) \<Rightarrow> ('i \<Rightarrow> 'v \<Rightarrow> nat \<Rightarrow> 'i) \<Rightarrow> 'v list \<Rightarrow> 64 word
     \<Rightarrow> 'v TransactionManager \<times> ('c, 'v, 'i) TxTable
     \<Rightarrow> exn + ('v TransactionManager \<times> ('c, 'v, 'i) TxTable)" where
  "Table_insert validate_value column_index index_insert vals transaction_id s =
    (let tm = fst s; tb = snd s in
     if length vals \<noteq> length (tcolumns tb) then Inl RuntimeError
     else if \<not> list_all2 validate_value (tcolumns tb) vals then Inl RuntimeError
     else
       (case (if 0 < transaction_id then
                (case get_transaction transaction_id tm of
                   Inl e \<Rightarrow> Inl e
                 | Inr t \<Rightarrow>
                     if tx_state t = ACTIVE then
                       Inr (tm\<lparr>transactions :=
                              (transactions tm)(transaction_id \<mapsto> add_table_state (tname tb) (trows tb) t)\<rparr>)
                     else Inr tm)
              else Inr tm) of
          Inl e \<Rightarrow> Inl e
        | Inr tm' \<Rightarrow>
            (let rows' = trows tb @ [vals] in
             case insert_indexes column_index index_insert vals (length rows' - 1) (tindexes tb) of
               Inl e \<Rightarrow> Inl e
             | Inr ixs' \<Rightarrow> Inr (tm', tb\<lparr>trows := rows', tindexes := ixs'\<rparr>))))"

text \<open>The singleton \<open>Database\<close> of the transaction-aware code: its tables, next to the
  manager that its transaction functions delegate to.\<close>

record ('c, 'v, 'i) TxDatabase =
  manager :: "'v TransactionManager"
  tables :: "string \<rightharpoonup> ('c, 'v, 'i) TxTable"

definition Database_begin_transaction ::
  "('c, 'v, 'i) TxDatabase \<Rightarrow> 64 word \<times> ('c, 'v, 'i) TxDatabase" where
  "Database_begin_transaction db =
    (case begin_transaction (manager db) of (i, tm') \<Rightarrow> (i, db\<lparr>manager := tm'\<rparr>))"

definition Database_abort_transaction ::
  "64 word \<Rightarrow> ('c, 'v, 'i) TxDatabase \<Rightarrow> exn + ('c, 'v, 'i) TxDatabase" where
  "Database_abort_transaction i db =
    (case abort_transaction i (manager db) of
       Inl e \<Rightarrow> Inl e
     | Inr tm' \<Rightarrow> Inr (db\<lparr>manager := tm'\<rparr>))"

text \<open>A client's call \<open>db.get_table(name)->insert(values, transaction_id)\<close>.\<close>

definition Database_insert ::
  "('c \<Rightarrow> 'v \<Rightarrow> bool) \<Rightarrow> ('i \<Rightarrow> nat) \<Rightarrow> ('i \<Rightarrow> 'v \<Rightarrow> nat \<Rightarrow> 'i) \<Rightarrow> string \<Rightarrow> 'v list \<Rightarrow> 64 word
     \<Rightarrow> ('c, 'v, 'i) TxDatabase \<Rightarrow> exn + ('c, 'v, 'i) TxDatabase" where
  "Database_insert validate_value column_index index_insert table_name vals transaction_id db =
    (case tables db table_name of
       None \<Rightarrow> Inl UndefinedBehaviour
     | Some tb \<Rightarrow>
         (case Table_insert validate_value column_index index_insert vals transaction_id
                 (manager db, tb) of
            Inl e \<Rightarrow> Inl e
          | Inr (tm', tb') \<Rightarrow> Inr \<lparr>manager = tm', tables = (tables db)(table_name \<mapsto> tb')\<rparr>))"

text \<open>A database with one table of two columns, holding one row; no column is
  validated and there is no index.\<close>

definition users_db :: "(unit, int, unit) TxDatabase" where
  "users_db =
    \<lparr>manager = TransactionManager_new,
     tables = [''users'' \<mapsto> \<lparr>tname = ''users'', tcolumns = [(), ()], trows = [[1, 10]],
                               tindexes = []\<rparr>]\<rparr>"

section \<open>The table engine: \<open>db/table.h\<close> and \<open>db/table.cpp\<close>\<close>


text \<open>
  \<open>DBValue\<close> is a variant of null, a 64-bit integer, a double and a string.  The engine
  only compares integers and never computes with them, so \<open>DBInt\<close> is an integer with
  its order.  Doubles are a type parameter, and their comparisons \<open>==\<close> and \<open><\<close> are the
  parameters \<open>feq\<close> and \<open>flt\<close> of every function that evaluates a condition: nothing is
  assumed about them, so they may be the IEEE comparisons.  Strings are byte lists in
  lexicographic order.  Row positions of type \<open>size_t\<close> are natural numbers.
\<close>

datatype 'f DBValue = DBNull | DBInt int | DBFloat 'f | DBText string

datatype ColumnType = CT_Null | CT_Int | CT_Float | CT_Text

record ColumnDef =
  col_name :: string
  col_type :: ColumnType
  primary_key :: bool
  not_null :: bool

type_synonym 'f Row = "'f DBValue list"

fun value_type :: "'f DBValue \<Rightarrow> ColumnType" where
  "value_type DBNull = CT_Null"
| "value_type (DBInt _) = CT_Int"
| "value_type (DBFloat _) = CT_Float"
| "value_type (DBText _) = CT_Text"

fun values_equal :: "('f \<Rightarrow> 'f \<Rightarrow> bool) \<Rightarrow> 'f DBValue \<Rightarrow> 'f DBValue \<Rightarrow> bool" where
  "values_equal feq DBNull DBNull = True"
| "values_equal feq (DBInt a) (DBInt b) = (a = b)"
| "values_equal feq (DBFloat a) (DBFloat b) = feq a b"
| "values_equal feq (DBText a) (DBText b) = (a = b)"
| "values_equal feq _ _ = False"

text \<open>\<open>static_cast<int>(value_type(a))\<close>: the position of the type in the enumeration.\<close>

fun type_rank :: "ColumnType \<Rightarrow> nat" where
  "type_rank CT_Null = 0"
| "type_rank CT_Int = 1"
| "type_rank CT_Float = 2"
| "type_rank CT_Text = 3"

fun values_less :: "('f \<Rightarrow> 'f \<Rightarrow> bool) \<Rightarrow> 'f DBValue \<Rightarrow> 'f DBValue \<Rightarrow> bool" where
  "values_less flt DBNull b = (b \<noteq> DBNull)"
| "values_less flt a DBNull = False"
| "values_less flt (DBInt a) (DBInt b) = (a < b)"
| "values_less flt (DBFloat a) (DBFloat b) = flt a b"
| "values_less flt (DBText a) (DBText b) = (a < b)"
| "values_less flt a b = (type_rank (value_type a) < type_rank (value_type b))"

record 'f Condition =
  column_name :: string
  cond_op :: string
  cond_value :: "'f DBValue"

text \<open>Linear search for the first column of the given name
  (\<open>Table::column_index\<close>, and the same loop inside \<open>Condition::evaluate\<close>).\<close>

fun column_index :: "ColumnDef list \<Rightarrow> string \<Rightarrow> nat option" where
  "column_index [] nm = None"
| "column_index (c # cs) nm =
    (if col_name c = nm then Some 0 else map_option Suc (column_index cs nm))"

definition evaluate ::
  "('f \<Rightarrow> 'f \<Rightarrow> bool) \<Rightarrow> ('f \<Rightarrow> 'f \<Rightarrow> bool) \<Rightarrow> 'f Condition \<Rightarrow> 'f Row \<Rightarrow> ColumnDef list \<Rightarrow> bool" where
  "evaluate feq flt c row cols =
    (case column_index cols (column_name c) of
       None \<Rightarrow> False
     | Some col_idx \<Rightarrow>
         if length row \<le> col_idx then False
         else
           (let row_value = row ! col_idx; v = cond_value c in
            if cond_op c = ''='' then values_equal feq row_value v
            else if cond_op c = ''!='' then \<not> values_equal feq row_value v
            else if cond_op c = ''<'' then values_less flt row_value v
            else if cond_op c = ''>'' then
              \<not> values_less flt row_value v \<and> \<not> values_equal feq row_value v
            else if cond_op c = ''<='' then
              values_less flt row_value v \<or> values_equal feq row_value v
            else if cond_op c = ''>='' then \<not> values_less flt row_value v
            else False))"

text \<open>
  The table.  \<open>int_index_\<close> and \<open>text_index_\<close> are owning pointers that may be null.
  An exception (\<open>std::bad_variant_access\<close> from \<open>std::get\<close>) and undefined behaviour
  (a null pointer dereferenced, a vector indexed out of range, undefined behaviour inside
  the index) are error values; a call that ends in one returns no table.
\<close>

datatype db_error = BadVariantAccess | NullDeref | OutOfRange | IndexError bt_error

record 'f Table =
  name :: string
  columns :: "ColumnDef list"
  rows :: "'f Row list"
  primary_key_index :: "nat option"
  int_index :: "(int, nat) BPlusTree option"
  text_index :: "(string, nat) BPlusTree option"

fun first_primary_key :: "ColumnDef list \<Rightarrow> nat option" where
  "first_primary_key [] = None"
| "first_primary_key (c # cs) =
    (if primary_key c then Some 0 else map_option Suc (first_primary_key cs))"

definition Table_new :: "string \<Rightarrow> ColumnDef list \<Rightarrow> 'f Table" where
  "Table_new nm cols =
    (let pk = first_primary_key cols in
     \<lparr>name = nm, columns = cols, rows = [], primary_key_index = pk,
      int_index = (case pk of None \<Rightarrow> None
                   | Some i \<Rightarrow> if col_type (cols ! i) = CT_Int then Some BPlusTree_new else None),
      text_index = (case pk of None \<Rightarrow> None
                    | Some i \<Rightarrow> if col_type (cols ! i) = CT_Text then Some BPlusTree_new else None)\<rparr>)"

definition has_index :: "'f Table \<Rightarrow> bool" where
  "has_index t = (primary_key_index t \<noteq> None)"

text \<open>\<open>index->find(std::get<T>(val)).has_value()\<close>, for the integer and the text index.\<close>

definition int_index_has :: "'f Table \<Rightarrow> 'f DBValue \<Rightarrow> db_error + nat option" where
  "int_index_has t val =
    (case val of
       DBInt k \<Rightarrow>
         (case int_index t of
            None \<Rightarrow> Inl NullDeref
          | Some ix \<Rightarrow>
              (case BPlusTree_find k ix of Inl e \<Rightarrow> Inl (IndexError e) | Inr r \<Rightarrow> Inr r))
     | _ \<Rightarrow> Inl BadVariantAccess)"

definition text_index_has :: "'f Table \<Rightarrow> 'f DBValue \<Rightarrow> db_error + nat option" where
  "text_index_has t val =
    (case val of
       DBText k \<Rightarrow>
         (case text_index t of
            None \<Rightarrow> Inl NullDeref
          | Some ix \<Rightarrow>
              (case BPlusTree_find k ix of Inl e \<Rightarrow> Inl (IndexError e) | Inr r \<Rightarrow> Inr r))
     | _ \<Rightarrow> Inl BadVariantAccess)"

text \<open>The body of the checking loop of \<open>insert_row\<close> for column \<open>i\<close>, and the loop.
  \<open>Inr False\<close> is the early \<open>return false\<close>.\<close>

definition insert_row_check :: "'f Table \<Rightarrow> nat \<Rightarrow> ColumnDef \<Rightarrow> 'f DBValue \<Rightarrow> db_error + bool" where
  "insert_row_check t i col val =
    (if not_null col \<and> val = DBNull then Inr False
     else if val \<noteq> DBNull \<and> value_type val \<noteq> col_type col then Inr False
     else if primary_key col \<and> has_index t \<and> primary_key_index t = Some i then
       (if col_type col = CT_Int then
          (case int_index_has t val of
             Inl e \<Rightarrow> Inl e
           | Inr (Some _) \<Rightarrow> Inr False
           | Inr None \<Rightarrow> Inr True)
        else if col_type col = CT_Text then
          (case text_index_has t val of
             Inl e \<Rightarrow> Inl e
           | Inr (Some _) \<Rightarrow> Inr False
           | Inr None \<Rightarrow> Inr True)
        else Inr True)
     else Inr True)"

fun insert_row_checks ::
  "'f Table \<Rightarrow> nat \<Rightarrow> ColumnDef list \<Rightarrow> 'f Row \<Rightarrow> db_error + bool" where
  "insert_row_checks t i [] vals = Inr True"
| "insert_row_checks t i (col # cols) [] = Inl OutOfRange"
| "insert_row_checks t i (col # cols) (val # vals) =
    (case insert_row_check t i col val of
       Inl e \<Rightarrow> Inl e
     | Inr False \<Rightarrow> Inr False
     | Inr True \<Rightarrow> insert_row_checks t (Suc i) cols vals)"

definition update_index :: "'f DBValue \<Rightarrow> nat \<Rightarrow> 'f Table \<Rightarrow> db_error + 'f Table" where
  "update_index key row_index t =
    (case primary_key_index t of
       None \<Rightarrow> Inr t
     | Some pk \<Rightarrow>
         if length (columns t) \<le> pk then Inl OutOfRange
         else if col_type (columns t ! pk) = CT_Int \<and> int_index t \<noteq> None then
           (case key of
              DBInt k \<Rightarrow>
                (case BPlusTree_insert k row_index (the (int_index t)) of
                   Inl e \<Rightarrow> Inl (IndexError e)
                 | Inr ix \<Rightarrow> Inr (t\<lparr>int_index := Some ix\<rparr>))
            | _ \<Rightarrow> Inl BadVariantAccess)
         else if col_type (columns t ! pk) = CT_Text \<and> text_index t \<noteq> None then
           (case key of
              DBText k \<Rightarrow>
                (case BPlusTree_insert k row_index (the (text_index t)) of
                   Inl e \<Rightarrow> Inl (IndexError e)
                 | Inr ix \<Rightarrow> Inr (t\<lparr>text_index := Some ix\<rparr>))
            | _ \<Rightarrow> Inl BadVariantAccess)
         else Inr t)"

definition insert_row :: "'f Row \<Rightarrow> 'f Table \<Rightarrow> db_error + (bool \<times> 'f Table)" where
  "insert_row row t =
    (if length row \<noteq> length (columns t) then Inr (False, t)
     else
       (case insert_row_checks t 0 (columns t) row of
          Inl e \<Rightarrow> Inl e
        | Inr False \<Rightarrow> Inr (False, t)
        | Inr True \<Rightarrow>
            (let row_idx = length (rows t); t1 = t\<lparr>rows := rows t @ [row]\<rparr> in
             case primary_key_index t1 of
               None \<Rightarrow> Inr (True, t1)
             | Some pk \<Rightarrow>
                 if length row \<le> pk then Inl OutOfRange
                 else
                   (case update_index (row ! pk) row_idx t1 of
                      Inl e \<Rightarrow> Inl e
                    | Inr t2 \<Rightarrow> Inr (True, t2)))))"

definition row_matches ::
  "('f \<Rightarrow> 'f \<Rightarrow> bool) \<Rightarrow> ('f \<Rightarrow> 'f \<Rightarrow> bool) \<Rightarrow> 'f Table \<Rightarrow> 'f Row \<Rightarrow> 'f Condition list \<Rightarrow> bool" where
  "row_matches feq flt t row conditions =
    (if conditions = [] then True
     else list_all (\<lambda>c. evaluate feq flt c row (columns t)) conditions)"

text \<open>The tail of the two index branches of \<open>select\<close>: the looked-up position is used
  only if it is below the current row count.\<close>

definition lookup_result :: "'f Table \<Rightarrow> nat option \<Rightarrow> 'f Row list" where
  "lookup_result t row_idx_opt =
    (case row_idx_opt of
       None \<Rightarrow> []
     | Some row_idx \<Rightarrow> if row_idx < length (rows t) then [rows t ! row_idx] else [])"

definition full_scan ::
  "('f \<Rightarrow> 'f \<Rightarrow> bool) \<Rightarrow> ('f \<Rightarrow> 'f \<Rightarrow> bool) \<Rightarrow> 'f Condition list \<Rightarrow> 'f Table \<Rightarrow> 'f Row list" where
  "full_scan feq flt conditions t = filter (\<lambda>row. row_matches feq flt t row conditions) (rows t)"

definition select ::
  "('f \<Rightarrow> 'f \<Rightarrow> bool) \<Rightarrow> ('f \<Rightarrow> 'f \<Rightarrow> bool) \<Rightarrow> 'f Condition list \<Rightarrow> 'f Table
     \<Rightarrow> db_error + 'f Row list" where
  "select feq flt conditions t =
    (case primary_key_index t of
       None \<Rightarrow> Inr (full_scan feq flt conditions t)
     | Some pk \<Rightarrow>
         (case conditions of
            [condition] \<Rightarrow>
              if length (columns t) \<le> pk then Inl OutOfRange
              else if column_name condition = col_name (columns t ! pk) \<and> cond_op condition = ''=''
              then
                (if col_type (columns t ! pk) = CT_Int \<and> value_type (cond_value condition) = CT_Int
                 then
                   (case int_index_has t (cond_value condition) of
                      Inl e \<Rightarrow> Inl e
                    | Inr row_idx_opt \<Rightarrow> Inr (lookup_result t row_idx_opt))
                 else if col_type (columns t ! pk) = CT_Text
                         \<and> value_type (cond_value condition) = CT_Text
                 then
                   (case text_index_has t (cond_value condition) of
                      Inl e \<Rightarrow> Inl e
                    | Inr row_idx_opt \<Rightarrow> Inr (lookup_result t row_idx_opt))
                 else Inr (full_scan feq flt conditions t))
              else Inr (full_scan feq flt conditions t)
          | _ \<Rightarrow> Inr (full_scan feq flt conditions t)))"

text \<open>
  \<open>update\<close>.  \<open>updates\<close> is an unordered map from column names to values; the list holds
  its entries in the order in which the first loop meets them.  \<open>col_idx_to_value\<close> is
  an unordered map again: \<open>map_assign\<close> is its \<open>operator[]\<close> assignment, and the order of
  the list is the order in which the field loop meets the entries.
\<close>

fun map_assign :: "nat \<Rightarrow> 'a \<Rightarrow> (nat \<times> 'a) list \<Rightarrow> (nat \<times> 'a) list" where
  "map_assign k v [] = [(k, v)]"
| "map_assign k v ((k', v') # xs) =
    (if k' = k then (k, v) # xs else (k', v') # map_assign k v xs)"

fun resolve_updates ::
  "ColumnDef list \<Rightarrow> (string \<times> 'f DBValue) list \<Rightarrow> (nat \<times> 'f DBValue) list
     \<Rightarrow> (nat \<times> 'f DBValue) list" where
  "resolve_updates cols [] m = m"
| "resolve_updates cols ((nm, v) # us) m =
    (case column_index cols nm of
       None \<Rightarrow> resolve_updates cols us m
     | Some idx \<Rightarrow> resolve_updates cols us (map_assign idx v m))"

text \<open>The field loop: a value of the wrong type is skipped, any other is assigned.\<close>

fun assign_fields ::
  "ColumnDef list \<Rightarrow> (nat \<times> 'f DBValue) list \<Rightarrow> 'f Row \<Rightarrow> db_error + 'f Row" where
  "assign_fields cols [] row = Inr row"
| "assign_fields cols ((col_idx, v) # m) row =
    (if length cols \<le> col_idx then Inl OutOfRange
     else if v \<noteq> DBNull \<and> value_type v \<noteq> col_type (cols ! col_idx) then assign_fields cols m row
     else if length row \<le> col_idx then Inl OutOfRange
     else assign_fields cols m (row[col_idx := v]))"

text \<open>The uniqueness check of \<open>update\<close> for row \<open>i\<close>: \<open>Inr True\<close> is the \<open>continue\<close>
  that skips the row.\<close>

definition update_pk_taken :: "'f Table \<Rightarrow> nat \<Rightarrow> nat \<Rightarrow> 'f DBValue \<Rightarrow> db_error + bool" where
  "update_pk_taken t pk i new_pk_value =
    (if length (columns t) \<le> pk then Inl OutOfRange
     else if col_type (columns t ! pk) = CT_Int then
       (case int_index_has t new_pk_value of
          Inl e \<Rightarrow> Inl e
        | Inr None \<Rightarrow> Inr False
        | Inr (Some existing) \<Rightarrow> Inr (existing \<noteq> i))
     else if col_type (columns t ! pk) = CT_Text then
       (case text_index_has t new_pk_value of
          Inl e \<Rightarrow> Inl e
        | Inr None \<Rightarrow> Inr False
        | Inr (Some existing) \<Rightarrow> Inr (existing \<noteq> i))
     else Inr False)"

text \<open>The body of the row loop of \<open>update\<close> for position \<open>i\<close>; the flag tells whether
  \<open>count++\<close> was reached.\<close>

definition update_row ::
  "('f \<Rightarrow> 'f \<Rightarrow> bool) \<Rightarrow> ('f \<Rightarrow> 'f \<Rightarrow> bool) \<Rightarrow> (nat \<times> 'f DBValue) list \<Rightarrow> 'f Condition list
     \<Rightarrow> nat \<Rightarrow> 'f Table \<Rightarrow> db_error + (bool \<times> 'f Table)" where
  "update_row feq flt col_idx_to_value conditions i t =
    (if length (rows t) \<le> i then Inl OutOfRange
     else if \<not> row_matches feq flt t (rows t ! i) conditions then Inr (False, t)
     else
       (let new_pk = (case primary_key_index t of
                        None \<Rightarrow> None
                      | Some pk \<Rightarrow> map_option (Pair pk) (map_of col_idx_to_value pk)) in
        case (case new_pk of
                None \<Rightarrow> Inr False
              | Some (pk, new_pk_value) \<Rightarrow> update_pk_taken t pk i new_pk_value) of
          Inl e \<Rightarrow> Inl e
        | Inr True \<Rightarrow> Inr (False, t)
        | Inr False \<Rightarrow>
            (case assign_fields (columns t) col_idx_to_value (rows t ! i) of
               Inl e \<Rightarrow> Inl e
             | Inr row' \<Rightarrow>
                 (let t1 = t\<lparr>rows := (rows t)[i := row']\<rparr> in
                  case new_pk of
                    None \<Rightarrow> Inr (True, t1)
                  | Some (pk, _) \<Rightarrow>
                      if length row' \<le> pk then Inl OutOfRange
                      else
                        (case update_index (row' ! pk) i t1 of
                           Inl e \<Rightarrow> Inl e
                         | Inr t2 \<Rightarrow> Inr (True, t2))))))"

text \<open>The row loop.  Its bound \<open>rows_.size()\<close> does not change in the loop, whose body
  only assigns to elements, so the positions are those of the table at the call.\<close>

fun update_rows ::
  "('f \<Rightarrow> 'f \<Rightarrow> bool) \<Rightarrow> ('f \<Rightarrow> 'f \<Rightarrow> bool) \<Rightarrow> (nat \<times> 'f DBValue) list \<Rightarrow> 'f Condition list
     \<Rightarrow> nat list \<Rightarrow> nat \<Rightarrow> 'f Table \<Rightarrow> db_error + (nat \<times> 'f Table)" where
  "update_rows feq flt m conditions [] count t = Inr (count, t)"
| "update_rows feq flt m conditions (i # is) count t =
    (case update_row feq flt m conditions i t of
       Inl e \<Rightarrow> Inl e
     | Inr (counted, t') \<Rightarrow>
         update_rows feq flt m conditions is (if counted then Suc count else count) t')"

definition update ::
  "('f \<Rightarrow> 'f \<Rightarrow> bool) \<Rightarrow> ('f \<Rightarrow> 'f \<Rightarrow> bool) \<Rightarrow> (string \<times> 'f DBValue) list \<Rightarrow> 'f Condition list
     \<Rightarrow> 'f Table \<Rightarrow> db_error + (nat \<times> 'f Table)" where
  "update feq flt updates conditions t =
    update_rows feq flt (resolve_updates (columns t) updates []) conditions
      [0 ..< length (rows t)] 0 t"

definition remove ::
  "('f \<Rightarrow> 'f \<Rightarrow> bool) \<Rightarrow> ('f \<Rightarrow> 'f \<Rightarrow> bool) \<Rightarrow> 'f Condition list \<Rightarrow> 'f Table \<Rightarrow> nat \<times> 'f Table" where
  "remove feq flt conditions t =
    (let initial_size = length (rows t);
         t' = t\<lparr>rows := filter (\<lambda>row. \<not> row_matches feq flt t row conditions) (rows t)\<rparr>
     in (initial_size - length (rows t'), t'))"

text \<open>Client sequences of table operations; the first error ends the run.\<close>

datatype 'f table_op =
    InsertRow "'f Row"
  | Update "(string \<times> 'f DBValue) list" "'f Condition list"
  | Remove "'f Condition list"

fun Table_apply ::
  "('f \<Rightarrow> 'f \<Rightarrow> bool) \<Rightarrow> ('f \<Rightarrow> 'f \<Rightarrow> bool) \<Rightarrow> 'f table_op \<Rightarrow> 'f Table \<Rightarrow> db_error + 'f Table" where
  "Table_apply feq flt (InsertRow row) t =
    (case insert_row row t of Inl e \<Rightarrow> Inl e | Inr (_, t') \<Rightarrow> Inr t')"
| "Table_apply feq flt (Update updates conditions) t =
    (case update feq flt updates conditions t of Inl e \<Rightarrow> Inl e | Inr (_, t') \<Rightarrow> Inr t')"
| "Table_apply feq flt (Remove conditions) t = Inr (snd (remove feq flt conditions t))"

fun Table_run ::
  "('f \<Rightarrow> 'f \<Rightarrow> bool) \<Rightarrow> ('f \<Rightarrow> 'f \<Rightarrow> bool) \<Rightarrow> 'f table_op list \<Rightarrow> 'f Table \<Rightarrow> db_error + 'f Table" where
  "Table_run feq flt [] t = Inr t"
| "Table_run feq flt (op # ops) t =
    (case Table_apply feq flt op t of Inl e \<Rightarrow> Inl e | Inr t' \<Rightarrow> Table_run feq flt ops t')"

text \<open>A table \<open>users (id INT PRIMARY KEY, name TEXT)\<close>, as
  \<open>CREATE TABLE users (id INT PRIMARY KEY, name TEXT)\<close> makes it: the parser does not
  set \<open>not_null\<close> for a primary key.\<close>

definition users_cols :: "ColumnDef list" where
  "users_cols =
    [\<lparr>col_name = ''id'', col_type = CT_Int, primary_key = True, not_null = False\<rparr>,
     \<lparr>col_name = ''name'', col_type = CT_Text, primary_key = False, not_null = False\<rparr>]"

definition id_is :: "int \<Rightarrow> 'f Condition" where
  "id_is k = \<lparr>column_name = ''id'', cond_op = ''='', cond_value = DBInt k\<rparr>"

text \<open>The comparisons of doubles for tables that hold no double.\<close>

definition feq_unit :: "unit \<Rightarrow> unit \<Rightarrow> bool" where
  "feq_unit a b = True"

definition flt_unit :: "unit \<Rightarrow> unit \<Rightarrow> bool" where
  "flt_unit a b = False"

section \<open>Abstraction functions and invariants\<close>

text \<open>The definitions below are not part of the program: they state what the index and
  the table hold, and the invariants that the proofs carry through the operations.\<close>

text \<open>The pairs stored in a subtree, leaf by leaf from left to right.\<close>

fun entries :: "('k, 'v) Node \<Rightarrow> ('k \<times> 'v) list" where
  "entries (LeafNode a ks vs nx) = zip ks vs"
| "entries (InternalNode ks cs) = concat (map entries cs)"

definition in_bounds :: "('k::linorder) option \<Rightarrow> 'k option \<Rightarrow> 'k \<Rightarrow> bool" where
  "in_bounds lo hi k =
    ((case lo of None \<Rightarrow> True | Some l \<Rightarrow> l \<le> k) \<and> (case hi of None \<Rightarrow> True | Some h \<Rightarrow> k < h))"

definition sep_ok :: "('k::linorder) option \<Rightarrow> 'k option \<Rightarrow> 'k \<Rightarrow> bool" where
  "sep_ok lo hi k =
    ((case lo of None \<Rightarrow> True | Some l \<Rightarrow> l \<le> k) \<and> (case hi of None \<Rightarrow> True | Some h \<Rightarrow> k \<le> h))"

fun bt_inv :: "('k::linorder) option \<Rightarrow> 'k option \<Rightarrow> ('k, 'v) Node \<Rightarrow> bool"
  and bt_inv_list :: "('k::linorder) option \<Rightarrow> 'k option \<Rightarrow> 'k list \<Rightarrow> ('k, 'v) Node list \<Rightarrow> bool" where
  "bt_inv lo hi (LeafNode a ks vs nx) =
     (length vs = length ks \<and> sorted_wrt (<) ks \<and> (\<forall>k \<in> set ks. in_bounds lo hi k))"
| "bt_inv lo hi (InternalNode ks cs) = bt_inv_list lo hi ks cs"
| "bt_inv_list lo hi [] cs = (case cs of [c] \<Rightarrow> bt_inv lo hi c | _ \<Rightarrow> False)"
| "bt_inv_list lo hi (k # ks) cs =
     (case cs of [] \<Rightarrow> False
      | c # cs' \<Rightarrow> bt_inv lo (Some k) c \<and> sep_ok lo hi k \<and> bt_inv_list (Some k) hi ks cs')"

definition child_lo :: "'k option \<Rightarrow> 'k list \<Rightarrow> nat \<Rightarrow> 'k option" where
  "child_lo lo ks i = (if i = 0 then lo else Some (ks ! (i - 1)))"

definition child_hi :: "'k option \<Rightarrow> 'k list \<Rightarrow> nat \<Rightarrow> 'k option" where
  "child_hi hi ks i = (if i < length ks then Some (ks ! i) else hi)"

definition ins_set :: "'k \<Rightarrow> 'v \<Rightarrow> ('k \<times> 'v) set \<Rightarrow> ('k \<times> 'v) set" where
  "ins_set key val S = insert (key, val) {e \<in> S. fst e \<noteq> key}"

definition others :: "('k, 'v) Node list \<Rightarrow> nat \<Rightarrow> ('k \<times> 'v) set" where
  "others cs i = (\<Union>j \<in> {j. j < length cs \<and> j \<noteq> i}. set (entries (cs ! j)))"

definition del_set :: "'k \<Rightarrow> ('k \<times> 'v) set \<Rightarrow> ('k \<times> 'v) set" where
  "del_set key S = {e \<in> S. fst e \<noteq> key}"

definition upd_set :: "'k \<Rightarrow> 'v \<Rightarrow> ('k \<times> 'v) set \<Rightarrow> ('k \<times> 'v) set" where
  "upd_set key val S = (if key \<in> fst ` S then ins_set key val S else S)"

definition tree_inv :: "('k::linorder, 'v) BPlusTree \<Rightarrow> bool" where
  "tree_inv t = bt_inv None None (root t)"

definition bt_map :: "('k, 'v) BPlusTree \<Rightarrow> 'k \<rightharpoonup> 'v" where
  "bt_map t = map_of (entries (root t))"

fun bt_op_key :: "('k, 'v) bt_op \<Rightarrow> 'k" where
  "bt_op_key (BtInsert k v) = k"
| "bt_op_key (BtUpdate k v) = k"
| "bt_op_key (BtRemove k) = k"

definition tree_keys :: "('k, 'v) BPlusTree \<Rightarrow> 'k list" where
  "tree_keys t = concat (map lkeys (leaves (root t)))"

fun map_apply :: "('k, 'v) bt_op \<Rightarrow> ('k \<rightharpoonup> 'v) \<Rightarrow> ('k \<rightharpoonup> 'v)" where
  "map_apply (BtInsert k v) m = m(k \<mapsto> v)"
| "map_apply (BtUpdate k v) m = (if k \<in> dom m then m(k \<mapsto> v) else m)"
| "map_apply (BtRemove k) m = m(k := None)"

definition leaves_list :: "('k, 'v) Node list \<Rightarrow> ('k, 'v) Node list" where
  "leaves_list cs = concat (map leaves cs)"

fun res_leaves :: "('k, 'v) InsertResult \<Rightarrow> ('k, 'v) Node list" where
  "res_leaves None = []"
| "res_leaves (Some (sep, r)) = leaves r"

fun chain_ok :: "('k, 'v) Node list \<Rightarrow> nat option \<Rightarrow> bool" where
  "chain_ok [] final = True"
| "chain_ok (l # ls) final =
    (lnext l = (case ls of [] \<Rightarrow> final | l' # _ \<Rightarrow> Some (addr l')) \<and> chain_ok ls final)"

definition chain_inv :: "('k, 'v) BPlusTree \<Rightarrow> bool" where
  "chain_inv t =
    (chain_ok (leaves (root t)) None \<and> distinct (map addr (leaves (root t))) \<and>
     (\<forall>l \<in> set (leaves (root t)). addr l < next_addr t))"

definition rows_wf :: "'f Table \<Rightarrow> bool" where
  "rows_wf t = (\<forall>row \<in> set (rows t). length row = length (columns t))"

definition table_ok :: "'f Table \<Rightarrow> bool" where
  "table_ok t =
    (rows_wf t \<and>
     (case primary_key_index t of
        None \<Rightarrow> int_index t = None \<and> text_index t = None
      | Some pk \<Rightarrow>
          pk < length (columns t) \<and> primary_key (columns t ! pk) \<and>
          (if col_type (columns t ! pk) = CT_Int then (\<exists>ix. int_index t = Some ix \<and> tree_inv ix)
           else int_index t = None) \<and>
          (if col_type (columns t ! pk) = CT_Text then (\<exists>ix. text_index t = Some ix \<and> tree_inv ix)
           else text_index t = None)))"

text \<open>What the index holds for a key value: the position it maps the value to.\<close>

definition index_map :: "'f Table \<Rightarrow> 'f DBValue \<Rightarrow> nat option" where
  "index_map t v =
    (case v of
       DBInt k \<Rightarrow> (case int_index t of None \<Rightarrow> None | Some ix \<Rightarrow> bt_map ix k)
     | DBText s \<Rightarrow> (case text_index t of None \<Rightarrow> None | Some ix \<Rightarrow> bt_map ix s)
     | _ \<Rightarrow> None)"

definition indexed_type :: "ColumnType \<Rightarrow> bool" where
  "indexed_type ty = (ty = CT_Int \<or> ty = CT_Text)"

text \<open>Two invariants on the primary-key column \<open>pk\<close>.  The strong one: every row's key
  has the column's type and the index maps it to the row's own position.  The weak one:
  the keys of the rows are pairwise distinct, have the column's type, and have some entry
  in the index.\<close>

definition inv_strong :: "'f Table \<Rightarrow> nat \<Rightarrow> bool" where
  "inv_strong t pk =
    (\<forall>i < length (rows t).
       value_type (rows t ! i ! pk) = col_type (columns t ! pk) \<and>
       index_map t (rows t ! i ! pk) = Some i)"

definition inv_weak :: "'f Table \<Rightarrow> nat \<Rightarrow> bool" where
  "inv_weak t pk =
    (distinct (map (\<lambda>row. row ! pk) (rows t)) \<and>
     (\<forall>row \<in> set (rows t).
        value_type (row ! pk) = col_type (columns t ! pk) \<and> index_map t (row ! pk) \<noteq> None))"

text \<open>The field loop in the spec's words: field \<open>c\<close> of the row takes the value assigned
  to column \<open>c\<close>, unless there is none or it is a non-null value of another type than the
  column's.\<close>

definition assigned_field :: "ColumnDef list \<Rightarrow> (nat \<times> 'f DBValue) list \<Rightarrow> 'f Row \<Rightarrow> nat \<Rightarrow> 'f DBValue" where
  "assigned_field cols m row c =
    (case map_of m c of
       None \<Rightarrow> row ! c
     | Some v \<Rightarrow> if v \<noteq> DBNull \<and> value_type v \<noteq> col_type (cols ! c) then row ! c else v)"

definition assigned_row :: "ColumnDef list \<Rightarrow> (nat \<times> 'f DBValue) list \<Rightarrow> 'f Row \<Rightarrow> 'f Row" where
  "assigned_row cols m row = map (assigned_field cols m row) [0 ..< length row]"

definition assignments_wf :: "ColumnDef list \<Rightarrow> (nat \<times> 'f DBValue) list \<Rightarrow> bool" where
  "assignments_wf cols m = (distinct (map fst m) \<and> (\<forall>c \<in> fst ` set m. c < length cols))"

text \<open>The skip condition of \<open>update\<close> for the row at position \<open>i\<close>: a value is assigned
  to the primary-key column, and the index maps this value to another position.\<close>

definition pk_taken :: "'f Table \<Rightarrow> (nat \<times> 'f DBValue) list \<Rightarrow> nat \<Rightarrow> bool" where
  "pk_taken t m i =
    (case primary_key_index t of
       None \<Rightarrow> False
     | Some pk \<Rightarrow>
         (case map_of m pk of
            None \<Rightarrow> False
          | Some v \<Rightarrow> (case index_map t v of None \<Rightarrow> False | Some j \<Rightarrow> j \<noteq> i)))"

text \<open>The value assigned to the primary-key column, if any, has the type of an indexed
  primary-key column.\<close>

definition pk_value_typed :: "'f Table \<Rightarrow> (nat \<times> 'f DBValue) list \<Rightarrow> bool" where
  "pk_value_typed t m =
    (case primary_key_index t of
       None \<Rightarrow> True
     | Some pk \<Rightarrow>
         (case map_of m pk of
            None \<Rightarrow> True
          | Some v \<Rightarrow> indexed_type (col_type (columns t ! pk)) \<longrightarrow>
                       value_type v = col_type (columns t ! pk)))"

definition index_after_update :: "'f Table \<Rightarrow> (nat \<times> 'f DBValue) list \<Rightarrow> nat \<Rightarrow> 'f DBValue \<rightharpoonup> nat" where
  "index_after_update t m i =
    (case primary_key_index t of
       None \<Rightarrow> index_map t
     | Some pk \<Rightarrow>
         (case map_of m pk of
            None \<Rightarrow> index_map t
          | Some v \<Rightarrow> if indexed_type (col_type (columns t ! pk)) then (index_map t)(v \<mapsto> i)
                      else index_map t))"

text \<open>No \<open>update\<close> that assigns to the primary-key column \<open>pk\<close> comes after a
  \<open>remove\<close>; the flag tells whether a \<open>remove\<close> has already happened.\<close>

fun pk_safe :: "nat \<Rightarrow> ColumnDef list \<Rightarrow> bool \<Rightarrow> 'f table_op list \<Rightarrow> bool" where
  "pk_safe pk cols removed [] = True"
| "pk_safe pk cols removed (InsertRow row # ops) = pk_safe pk cols removed ops"
| "pk_safe pk cols removed (Remove conds # ops) = pk_safe pk cols True ops"
| "pk_safe pk cols removed (Update updates conds # ops) =
    ((removed \<longrightarrow> map_of (resolve_updates cols updates []) pk = None) \<and>
     pk_safe pk cols removed ops)"

fun is_remove :: "'f table_op \<Rightarrow> bool" where
  "is_remove (Remove conds) = True"
| "is_remove _ = False"

text \<open>
  The rows that one \<open>update\<close> call skips, in terms of the table at the call.  The row
  loop reads the index as it stands when it reaches row \<open>i\<close>.  If the index held an entry
  for the new key at the call, the entry stays what it is during the call, and row \<open>i\<close> is
  skipped when the entry is another position.  If it held none, the first matching row
  takes the key and writes the entry, so row \<open>i\<close> is skipped when an earlier row of the
  call matches the conditions.  \<open>skipped_from\<close> is the same for a loop that starts at
  position \<open>a\<close>.
\<close>

definition skipped_from ::
  "('f \<Rightarrow> 'f \<Rightarrow> bool) \<Rightarrow> ('f \<Rightarrow> 'f \<Rightarrow> bool) \<Rightarrow> 'f Table \<Rightarrow> (nat \<times> 'f DBValue) list
     \<Rightarrow> 'f Condition list \<Rightarrow> nat \<Rightarrow> nat \<Rightarrow> bool" where
  "skipped_from feq flt t m conds a i =
    (case primary_key_index t of
       None \<Rightarrow> False
     | Some pk \<Rightarrow>
         (case map_of m pk of
            None \<Rightarrow> False
          | Some v \<Rightarrow>
              (case index_map t v of
                 Some p \<Rightarrow> p \<noteq> i
               | None \<Rightarrow> indexed_type (col_type (columns t ! pk)) \<and>
                          (\<exists>j \<in> set [a ..< i]. row_matches feq flt t (rows t ! j) conds))))"

definition row_skipped ::
  "('f \<Rightarrow> 'f \<Rightarrow> bool) \<Rightarrow> ('f \<Rightarrow> 'f \<Rightarrow> bool) \<Rightarrow> 'f Table \<Rightarrow> (nat \<times> 'f DBValue) list
     \<Rightarrow> 'f Condition list \<Rightarrow> nat \<Rightarrow> bool" where
  "row_skipped feq flt t m conds i =
    (case primary_key_index t of
       None \<Rightarrow> False
     | Some pk \<Rightarrow>
         (case map_of m pk of
            None \<Rightarrow> False
          | Some v \<Rightarrow>
              (case index_map t v of
                 Some p \<Rightarrow> p \<noteq> i
               | None \<Rightarrow> indexed_type (col_type (columns t ! pk)) \<and>
                          (\<exists>j \<in> set [0 ..< i]. row_matches feq flt t (rows t ! j) conds))))"

section \<open>Invariant of the index\<close>


lemma lower_bound_Nil [simp]: "lower_bound [] key = 0"
  by (simp add: lower_bound_def)

lemma lower_bound_Cons [simp]:
  "lower_bound (x # xs) key = (if x < key then Suc (lower_bound xs key) else 0)"
  by (simp add: lower_bound_def)

lemma upper_bound_Nil [simp]: "upper_bound [] key = 0"
  by (simp add: upper_bound_def)

lemma upper_bound_Cons [simp]:
  "upper_bound (x # xs) key = (if key < x then 0 else Suc (upper_bound xs key))"
  by (simp add: upper_bound_def)

lemma lower_bound_le: "lower_bound ks key \<le> length ks"
  by (simp add: lower_bound_def length_takeWhile_le)

lemma upper_bound_le: "upper_bound ks key \<le> length ks"
  by (simp add: upper_bound_def length_takeWhile_le)

lemma insert_at_0 [simp]: "insert_at 0 x xs = x # xs"
  by (simp add: insert_at_def)

lemma insert_at_Suc [simp]: "insert_at (Suc i) x (y # ys) = y # insert_at i x ys"
  by (simp add: insert_at_def)

lemma length_insert_at [simp]: "i \<le> length xs \<Longrightarrow> length (insert_at i x xs) = Suc (length xs)"
  by (simp add: insert_at_def)

lemma set_insert_at [simp]: "set (insert_at i x xs) = insert x (set xs)"
proof -
  have "set (take i xs) \<union> set (drop i xs) = set xs"
    by (metis append_take_drop_id set_append)
  then show ?thesis by (auto simp: insert_at_def)
qed

lemma child_lo_0 [simp]: "child_lo lo ks 0 = lo"
  by (simp add: child_lo_def)

lemma child_lo_Suc [simp]: "child_lo lo (k # ks) (Suc i) = child_lo (Some k) ks i"
  by (cases i) (simp_all add: child_lo_def)

lemma child_hi_Nil [simp]: "child_hi hi [] i = hi"
  by (simp add: child_hi_def)

lemma child_hi_0 [simp]: "child_hi hi (k # ks) 0 = Some k"
  by (simp add: child_hi_def)

lemma child_hi_Suc [simp]: "child_hi hi (k # ks) (Suc i) = child_hi hi ks i"
  by (simp add: child_hi_def)

lemma bt_inv_list_length: "bt_inv_list lo hi ks cs \<Longrightarrow> length cs = Suc (length ks)"
  by (induction ks arbitrary: cs lo) (auto split: list.splits)

lemma bt_inv_list_nth:
  "bt_inv_list lo hi ks cs \<Longrightarrow> i < length cs \<Longrightarrow> bt_inv (child_lo lo ks i) (child_hi hi ks i) (cs ! i)"
proof (induction ks arbitrary: cs lo i)
  case Nil
  then show ?case by (auto split: list.splits)
next
  case (Cons k ks)
  then show ?case by (cases i) (auto split: list.splits)
qed

lemma in_bounds_child:
  "bt_inv_list lo hi ks cs \<Longrightarrow> in_bounds lo hi key \<Longrightarrow>
   in_bounds (child_lo lo ks (upper_bound ks key)) (child_hi hi ks (upper_bound ks key)) key"
proof (induction ks arbitrary: cs lo)
  case Nil
  then show ?case by simp
next
  case (Cons k ks)
  then show ?case by (auto split: list.splits simp: in_bounds_def sep_ok_def)
qed

lemma child_bounds_mono:
  "bt_inv_list lo hi ks cs \<Longrightarrow> i < length cs \<Longrightarrow>
   (in_bounds (child_lo lo ks i) (child_hi hi ks i) x \<longrightarrow> in_bounds lo hi x) \<and>
   (sep_ok (child_lo lo ks i) (child_hi hi ks i) x \<longrightarrow> sep_ok lo hi x)"
proof (induction ks arbitrary: cs lo i)
  case Nil
  then show ?case by (auto split: list.splits)
next
  case (Cons k ks)
  show ?case
  proof (cases i)
    case 0
    with Cons.prems show ?thesis
      by (auto split: list.splits option.splits simp: in_bounds_def sep_ok_def)
  next
    case (Suc j)
    with Cons.prems obtain c cs' where cs: "cs = c # cs'" and k: "sep_ok lo hi k"
      and rest: "bt_inv_list (Some k) hi ks cs'" and j: "j < length cs'"
      by (auto split: list.splits)
    from Cons.IH[OF rest j] Suc k show ?thesis
      by (auto split: option.splits simp: in_bounds_def sep_ok_def)
  qed
qed

lemma bt_inv_list_update:
  "bt_inv_list lo hi ks cs \<Longrightarrow> i < length cs \<Longrightarrow>
   bt_inv (child_lo lo ks i) (child_hi hi ks i) c' \<Longrightarrow> bt_inv_list lo hi ks (cs[i := c'])"
proof (induction ks arbitrary: cs lo i)
  case Nil
  then show ?case by (auto split: list.splits)
next
  case (Cons k ks)
  then show ?case by (cases i) (auto split: list.splits)
qed

lemma bt_inv_list_split_child:
  "bt_inv_list lo hi ks cs \<Longrightarrow> i < length cs \<Longrightarrow>
   bt_inv (child_lo lo ks i) (Some sep) c' \<Longrightarrow> bt_inv (Some sep) (child_hi hi ks i) r \<Longrightarrow>
   sep_ok (child_lo lo ks i) (child_hi hi ks i) sep \<Longrightarrow>
   bt_inv_list lo hi (insert_at i sep ks) (insert_at (Suc i) r (cs[i := c']))"
proof (induction ks arbitrary: cs lo i)
  case Nil
  then show ?case by (auto split: list.splits)
next
  case (Cons k ks)
  show ?case
  proof (cases i)
    case 0
    with Cons.prems show ?thesis
      by (auto split: list.splits option.splits simp: sep_ok_def)
  next
    case (Suc j)
    with Cons.prems show ?thesis
      by (auto split: list.splits intro: Cons.IH)
  qed
qed

lemma bt_inv_list_split_mid:
  "bt_inv_list lo hi ks cs \<Longrightarrow> mid < length ks \<Longrightarrow>
   bt_inv_list lo (Some (ks ! mid)) (take mid ks) (take (Suc mid) cs) \<and>
   bt_inv_list (Some (ks ! mid)) hi (drop (Suc mid) ks) (drop (Suc mid) cs) \<and>
   sep_ok lo hi (ks ! mid)"
proof (induction ks arbitrary: cs lo mid)
  case Nil
  then show ?case by simp
next
  case (Cons k ks)
  show ?case
  proof (cases mid)
    case 0
    with Cons.prems show ?thesis by (auto split: list.splits)
  next
    case (Suc j)
    with Cons.prems obtain c cs' where cs: "cs = c # cs'" and c: "bt_inv lo (Some k) c"
      and k: "sep_ok lo hi k"
      and rest: "bt_inv_list (Some k) hi ks cs'" and j: "j < length ks"
      by (auto split: list.splits)
    from Cons.IH[OF rest j] Suc k c cs show ?thesis
      by (auto split: option.splits simp: sep_ok_def)
  qed
qed

lemma lower_bound_found:
  "sorted_wrt (<) ks \<Longrightarrow>
   (lower_bound ks key < length ks \<and> ks ! lower_bound ks key = key) = (key \<in> set ks)"
  by (induction ks) auto

lemma sorted_insert_at_lower_bound:
  "sorted_wrt (<) ks \<Longrightarrow> key \<notin> set ks \<Longrightarrow>
   sorted_wrt (<) (insert_at (lower_bound ks key) key ks)"
  by (induction ks) (auto simp: not_less order_le_less)

lemma zip_insert_at:
  "length ks = length vs \<Longrightarrow>
   zip (insert_at i k ks) (insert_at i v vs) = insert_at i (k, v) (zip ks vs)"
  by (simp add: insert_at_def take_zip drop_zip)

lemma set_zip_update:
  assumes "distinct ks" "i < length ks" "length vs = length ks"
  shows "set (zip ks (vs[i := v])) = insert (ks ! i, v) {e \<in> set (zip ks vs). fst e \<noteq> ks ! i}"
proof -
  have "(a, b) \<in> set (zip ks (vs[i := v])) \<longleftrightarrow>
        (a, b) \<in> insert (ks ! i, v) {e \<in> set (zip ks vs). fst e \<noteq> ks ! i}" for a b
    using assms by (auto simp: in_set_zip nth_list_update nth_eq_iff_index_eq)
  then show ?thesis by auto
qed

lemma set_zip_fresh:
  "key \<notin> set ks \<Longrightarrow> {e \<in> set (zip ks vs). fst e \<noteq> key} = set (zip ks vs)"
  by (auto dest: set_zip_leftD)

lemma sorted_wrt_less_distinct: "sorted_wrt (<) (ks :: ('k::linorder) list) \<Longrightarrow> distinct ks"
  by (induction ks) auto

lemma sorted_take_less_nth:
  "sorted_wrt (<) (ks :: ('k::linorder) list) \<Longrightarrow> mid < length ks \<Longrightarrow> x \<in> set (take mid ks) \<Longrightarrow> x < ks ! mid"
  by (auto simp: in_set_conv_nth sorted_wrt_iff_nth_less)

lemma sorted_drop_ge_nth:
  "sorted_wrt (<) (ks :: ('k::linorder) list) \<Longrightarrow> mid < length ks \<Longrightarrow> x \<in> set (drop mid ks) \<Longrightarrow> ks ! mid \<le> x"
proof -
  assume s: "sorted_wrt (<) ks" and m: "mid < length ks" and x: "x \<in> set (drop mid ks)"
  from x obtain j where j: "j < length ks - mid" "x = ks ! (mid + j)"
    by (auto simp: in_set_conv_nth)
  show ?thesis
  proof (cases j)
    case 0
    with j show ?thesis by simp
  next
    case (Suc j')
    with j s have "ks ! mid < ks ! (mid + j)"
      by (auto simp: sorted_wrt_iff_nth_less)
    with j show ?thesis by simp
  qed
qed

lemma in_bounds_upper: "in_bounds lo hi x \<Longrightarrow> x < f \<Longrightarrow> in_bounds lo (Some f) x"
  by (simp add: in_bounds_def)

lemma in_bounds_lower: "in_bounds lo hi x \<Longrightarrow> f \<le> x \<Longrightarrow> in_bounds (Some f) hi x"
  by (simp add: in_bounds_def)

lemma in_bounds_sep_ok: "in_bounds lo hi x \<Longrightarrow> sep_ok lo hi x"
  by (auto simp: in_bounds_def sep_ok_def split: option.splits)

lemma LeafNode_insert_inv:
  assumes inv: "bt_inv lo hi (LeafNode a ks vs nx)" and kb: "in_bounds lo hi key"
  shows "\<exists>n' res fresh'. LeafNode_insert key val fresh a ks vs nx = Inr (n', res, fresh') \<and>
     (case res of
        None \<Rightarrow> bt_inv lo hi n' \<and> set (entries n') = ins_set key val (set (zip ks vs))
      | Some (sep, r) \<Rightarrow> sep_ok lo hi sep \<and> bt_inv lo (Some sep) n' \<and> bt_inv (Some sep) hi r \<and>
          set (entries n') \<union> set (entries r) = ins_set key val (set (zip ks vs)))"
proof -
  from inv have len: "length vs = length ks" and srt: "sorted_wrt (<) ks"
    and bnd: "\<forall>k \<in> set ks. in_bounds lo hi k" by auto
  let ?idx = "lower_bound ks key"
  have idx: "?idx \<le> length ks" by (rule lower_bound_le)
  show ?thesis
  proof (cases "key \<in> set ks")
    case True
    with srt have f: "?idx < length ks" "ks ! ?idx = key"
      using lower_bound_found[of ks key] by auto
    have "set (zip ks (vs[?idx := val])) = ins_set key val (set (zip ks vs))"
      using set_zip_update[of ks ?idx vs val] f len srt
      by (simp add: ins_set_def sorted_wrt_less_distinct)
    with f len srt bnd show ?thesis
      by (simp add: LeafNode_insert_def)
  next
    case False
    with srt have nf: "\<not> (?idx < length ks \<and> ks ! ?idx = key)"
      using lower_bound_found[of ks key] by auto
    let ?ks = "insert_at ?idx key ks" and ?vs = "insert_at ?idx val vs"
    have srt': "sorted_wrt (<) ?ks" using srt False by (rule sorted_insert_at_lower_bound)
    have len': "length ?vs = length ?ks" "length ?ks = Suc (length ks)" using len idx by simp_all
    have bnd': "\<forall>k \<in> set ?ks. in_bounds lo hi k" using bnd kb by simp
    have ent: "set (zip ?ks ?vs) = ins_set key val (set (zip ks vs))"
      using len False by (simp add: zip_insert_at ins_set_def set_zip_fresh)
    show ?thesis
    proof (cases "Order < length ?ks")
      case False
      have "LeafNode_insert key val fresh a ks vs nx = Inr (LeafNode a ?ks ?vs nx, None, fresh)"
        using nf False len idx by (auto simp: LeafNode_insert_def Let_def)
      with srt' len' bnd' ent show ?thesis by simp
    next
      case True
      let ?mid = "length ?ks div 2"
      have mid: "?mid < length ?ks" using len' by simp
      then obtain front rest where dr: "drop ?mid ?ks = front # rest" and fr: "front = ?ks ! ?mid"
        by (metis Cons_nth_drop_Suc)
      have left: "\<forall>x \<in> set (take ?mid ?ks). x < front"
        using sorted_take_less_nth[OF srt' mid] fr by blast
      have right: "\<forall>x \<in> set (drop ?mid ?ks). front \<le> x"
        using sorted_drop_ge_nth[OF srt' mid] fr by blast
      have fb: "in_bounds lo hi front" using bnd' fr mid by (metis nth_mem)
      have b1: "\<forall>x \<in> set (take ?mid ?ks). in_bounds lo (Some front) x"
        using left bnd' by (meson in_bounds_upper in_set_takeD)
      have b2: "\<forall>x \<in> set (drop ?mid ?ks). in_bounds (Some front) hi x"
        using right bnd' by (meson in_bounds_lower in_set_dropD)
      have z: "set (zip (take ?mid ?ks) (take ?mid ?vs)) \<union> set (zip (drop ?mid ?ks) (drop ?mid ?vs))
                 = set (zip ?ks ?vs)"
        by (metis append_take_drop_id drop_zip set_append take_zip)
      have res: "LeafNode_insert key val fresh a ks vs nx =
          Inr (LeafNode a (take ?mid ?ks) (take ?mid ?vs) (Some fresh),
               Some (front, LeafNode fresh (drop ?mid ?ks) (drop ?mid ?vs) nx), Suc fresh)"
        using nf True len idx len' dr by (auto simp: LeafNode_insert_def Let_def)
      have "sorted_wrt (<) (take ?mid ?ks)" "sorted_wrt (<) (drop ?mid ?ks)"
        using srt' by (simp_all add: sorted_wrt_take sorted_wrt_drop)
      with res fb b1 b2 z ent len' show ?thesis
        by (simp add: in_bounds_sep_ok)
    qed
  qed
qed

lemma bt_inv_in_bounds:
  "bt_inv lo hi (n :: ('k::linorder, 'v) Node) \<Longrightarrow> e \<in> set (entries n) \<Longrightarrow> in_bounds lo hi (fst e)"
  and bt_inv_list_in_bounds:
  "bt_inv_list lo hi ks (cs :: ('k::linorder, 'v) Node list) \<Longrightarrow> c \<in> set cs \<Longrightarrow> e \<in> set (entries c)
     \<Longrightarrow> in_bounds lo hi (fst e)"
proof (induction lo hi n and lo hi ks cs arbitrary: e and c e rule: bt_inv_bt_inv_list.induct)
  case (1 lo hi a ks vs nx)
  then show ?case by (cases e) (auto dest: set_zip_leftD)
next
  case (2 lo hi ks cs)
  from "2.prems" obtain c where "c \<in> set cs" "e \<in> set (entries c)" by auto
  with "2.IH" "2.prems" show ?case by simp
next
  case (3 lo hi cs)
  then show ?case by (auto split: list.splits)
next
  case (4 lo hi k ks cs)
  from "4.prems" obtain c0 cs' where cs: "cs = c0 # cs'" and c0: "bt_inv lo (Some k) c0"
    and k: "sep_ok lo hi k" and rest: "bt_inv_list (Some k) hi ks cs'"
    by (auto split: list.splits)
  show ?case
  proof (cases "c = c0")
    case True
    with "4.IH"(1)[OF cs c0] "4.prems" have "in_bounds lo (Some k) (fst e)" by simp
    with k show ?thesis by (auto simp: in_bounds_def sep_ok_def split: option.splits)
  next
    case False
    with "4.prems" cs have "c \<in> set cs'" by simp
    with "4.IH"(2)[OF cs rest] "4.prems" have "in_bounds (Some k) hi (fst e)" by simp
    with k show ?thesis by (auto simp: in_bounds_def sep_ok_def split: option.splits)
  qed
qed

lemma child_bounds_unique:
  "bt_inv_list lo hi ks cs \<Longrightarrow> j < length cs \<Longrightarrow>
   in_bounds (child_lo lo ks j) (child_hi hi ks j) key \<Longrightarrow> j = upper_bound ks key"
proof (induction ks arbitrary: cs lo j)
  case Nil
  then show ?case by (auto split: list.splits)
next
  case (Cons k ks)
  show ?case
  proof (cases j)
    case 0
    with Cons.prems show ?thesis by (auto simp: in_bounds_def)
  next
    case (Suc j')
    with Cons.prems obtain c cs' where cs: "cs = c # cs'"
      and rest: "bt_inv_list (Some k) hi ks cs'" and j: "j' < length cs'"
      and kb: "in_bounds (child_lo (Some k) ks j') (child_hi hi ks j') key"
      by (auto split: list.splits)
    from child_bounds_mono[OF rest j] kb have "in_bounds (Some k) hi key" by blast
    then have "\<not> key < k" by (auto simp: in_bounds_def)
    with Cons.IH[OF rest j kb] Suc show ?thesis by simp
  qed
qed

lemma sibling_no_key:
  assumes "bt_inv_list lo hi ks cs" "j < length cs" "j \<noteq> upper_bound ks key"
    and "e \<in> set (entries (cs ! j))"
  shows "fst e \<noteq> key"
  using bt_inv_in_bounds[OF bt_inv_list_nth[OF assms(1,2)] assms(4)]
    child_bounds_unique[OF assms(1,2)] assms(3) by auto

lemma entries_children_id:
  "i < length cs \<Longrightarrow> (\<Union>c \<in> set cs. set (entries c)) = set (entries (cs ! i)) \<union> others cs i"
proof -
  assume i: "i < length cs"
  have "set cs = insert (cs ! i) {cs ! j | j. j < length cs \<and> j \<noteq> i}"
    using i by (auto simp: in_set_conv_nth)
  then show ?thesis by (auto simp: others_def)
qed

lemma entries_children_update:
  "i < length cs \<Longrightarrow>
   (\<Union>c \<in> set (cs[i := c']). set (entries c)) = set (entries c') \<union> others cs i"
proof -
  assume i: "i < length cs"
  have "set (cs[i := c']) = insert c' {cs ! j | j. j < length cs \<and> j \<noteq> i}"
    using i by (auto simp: in_set_conv_nth nth_list_update) (metis nth_list_update_neq)
  then show ?thesis by (auto simp: others_def)
qed

lemma others_no_key:
  assumes "bt_inv_list lo hi ks cs"
  shows "{e \<in> others cs (upper_bound ks key). fst e \<noteq> key} = others cs (upper_bound ks key)"
  using sibling_no_key[OF assms] by (auto simp: others_def)

lemma ins_set_un: "{e \<in> B. fst e \<noteq> key} = B \<Longrightarrow> ins_set key val A \<union> B = ins_set key val (A \<union> B)"
  by (auto simp: ins_set_def)

lemma entries_take_drop:
  "(\<Union>c \<in> set (take m cs). set (entries c)) \<union> (\<Union>c \<in> set (drop m cs). set (entries c))
     = (\<Union>c \<in> set cs. set (entries c))"
proof -
  have "set (take m cs) \<union> set (drop m cs) = set cs"
    by (metis append_take_drop_id set_append)
  then show ?thesis by blast
qed

lemma Node_insert_inv:
  "bt_inv lo hi n \<Longrightarrow> in_bounds lo hi key \<Longrightarrow>
   \<exists>n' res fresh'. Node_insert key val fresh n = Inr (n', res, fresh') \<and>
     (case res of
        None \<Rightarrow> bt_inv lo hi n' \<and> set (entries n') = ins_set key val (set (entries n))
      | Some (sep, r) \<Rightarrow> sep_ok lo hi sep \<and> bt_inv lo (Some sep) n' \<and> bt_inv (Some sep) hi r \<and>
          set (entries n') \<union> set (entries r) = ins_set key val (set (entries n)))"
proof (induction key val fresh n arbitrary: lo hi rule: Node_insert.induct)
  case (1 key val fresh a ks vs nx)
  from LeafNode_insert_inv[OF "1.prems", of val fresh] show ?case
    by (simp only: Node_insert.simps entries.simps)
next
  case (2 key val fresh ks cs)
  let ?idx = "upper_bound ks key"
  let ?clo = "child_lo lo ks ?idx" and ?chi = "child_hi hi ks ?idx"
  from "2.prems" have il: "bt_inv_list lo hi ks cs" by simp
  then have len: "length cs = Suc (length ks)" by (rule bt_inv_list_length)
  have idx: "?idx < length cs" using len upper_bound_le[of ks key] by simp
  have cinv: "bt_inv ?clo ?chi (cs ! ?idx)" by (rule bt_inv_list_nth[OF il idx])
  have cb: "in_bounds ?clo ?chi key" by (rule in_bounds_child[OF il "2.prems"(2)])
  from "2.IH"[OF refl idx cinv cb] obtain c' res fresh' where
    ins: "Node_insert key val fresh (cs ! ?idx) = Inr (c', res, fresh')"
    and post: "case res of
        None \<Rightarrow> bt_inv ?clo ?chi c' \<and> set (entries c') = ins_set key val (set (entries (cs ! ?idx)))
      | Some (sep, r) \<Rightarrow> sep_ok ?clo ?chi sep \<and> bt_inv ?clo (Some sep) c' \<and> bt_inv (Some sep) ?chi r \<and>
          set (entries c') \<union> set (entries r) = ins_set key val (set (entries (cs ! ?idx)))"
    by blast
  note onk = others_no_key[OF il, of key]
  have eid: "set (entries (InternalNode ks cs)) = set (entries (cs ! ?idx)) \<union> others cs ?idx"
    using entries_children_id[OF idx] by simp
  show ?case
  proof (cases res)
    case None
    with post have c': "bt_inv ?clo ?chi c'"
      and e: "set (entries c') = ins_set key val (set (entries (cs ! ?idx)))" by simp_all
    have "bt_inv_list lo hi ks (cs[?idx := c'])" by (rule bt_inv_list_update[OF il idx c'])
    moreover have "set (entries (InternalNode ks (cs[?idx := c'])))
        = ins_set key val (set (entries (InternalNode ks cs)))"
      using entries_children_update[OF idx, of c'] e eid ins_set_un[OF onk] by simp
    ultimately show ?thesis using ins None idx by simp
  next
    case (Some p)
    obtain sep r where p: "p = (sep, r)" by (cases p)
    with Some post have s: "sep_ok ?clo ?chi sep" and c': "bt_inv ?clo (Some sep) c'"
      and r: "bt_inv (Some sep) ?chi r"
      and e: "set (entries c') \<union> set (entries r) = ins_set key val (set (entries (cs ! ?idx)))"
      by simp_all
    let ?ks = "insert_at ?idx sep ks" and ?cs = "insert_at (Suc ?idx) r (cs[?idx := c'])"
    have il': "bt_inv_list lo hi ?ks ?cs" by (rule bt_inv_list_split_child[OF il idx c' r s])
    have lks: "length ?ks = Suc (length ks)" using upper_bound_le[of ks key] by simp
    have lcs: "length ?cs = Suc (length ?ks)" using il' by (rule bt_inv_list_length)
    have ecs: "(\<Union>c \<in> set ?cs. set (entries c)) = ins_set key val (set (entries (InternalNode ks cs)))"
    proof -
      have "(\<Union>c \<in> set ?cs. set (entries c))
          = set (entries r) \<union> (set (entries c') \<union> others cs ?idx)"
        using entries_children_update[OF idx, of c'] by simp
      also have "\<dots> = ins_set key val (set (entries (cs ! ?idx))) \<union> others cs ?idx"
        using e by auto
      finally show ?thesis using eid ins_set_un[OF onk] by simp
    qed
    show ?thesis
    proof (cases "Order < length ?ks")
      case False
      have "Node_insert key val fresh (InternalNode ks cs) = Inr (InternalNode ?ks ?cs, None, fresh')"
        using ins Some p idx False by (simp add: Let_def)
      with il' ecs show ?thesis by simp
    next
      case True
      let ?mid = "length ?ks div 2"
      have mid: "?mid < length ?ks" using lks by simp
      have res: "Node_insert key val fresh (InternalNode ks cs) =
          Inr (InternalNode (take ?mid ?ks) (take (Suc ?mid) ?cs),
               Some (?ks ! ?mid, InternalNode (drop (Suc ?mid) ?ks) (drop (Suc ?mid) ?cs)), fresh')"
        using ins Some p idx True mid lcs by (simp add: Let_def)
      from bt_inv_list_split_mid[OF il' mid] entries_take_drop[of "Suc ?mid" ?cs] ecs res
      show ?thesis by simp
    qed
  qed
qed

lemma erase_at_0 [simp]: "erase_at 0 (x # xs) = xs"
  by (simp add: erase_at_def)

lemma erase_at_Suc [simp]: "erase_at (Suc i) (x # xs) = x # erase_at i xs"
  by (simp add: erase_at_def)

lemma set_erase_at_subset: "set (erase_at i xs) \<subseteq> set xs"
  by (auto simp: erase_at_def dest: in_set_takeD in_set_dropD)

lemma length_erase_at [simp]: "i < length xs \<Longrightarrow> length (erase_at i xs) = length xs - 1"
  by (auto simp: erase_at_def)

lemma sorted_erase_at: "sorted_wrt (<) (ks :: ('k::linorder) list) \<Longrightarrow> sorted_wrt (<) (erase_at i ks)"
proof (induction ks arbitrary: i)
  case Nil
  then show ?case by (simp add: erase_at_def)
next
  case (Cons k ks)
  show ?case
  proof (cases i)
    case 0
    with Cons.prems show ?thesis by simp
  next
    case (Suc j)
    have "\<forall>x \<in> set (erase_at j ks). k < x"
      using Cons.prems set_erase_at_subset[of j ks] by auto
    with Cons Suc show ?thesis by simp
  qed
qed

lemma zip_erase_at:
  "length ks = length vs \<Longrightarrow> zip (erase_at i ks) (erase_at i vs) = erase_at i (zip ks vs)"
  by (simp add: erase_at_def take_zip drop_zip)

lemma set_erase_at_distinct:
  "distinct (map fst xs) \<Longrightarrow> i < length xs \<Longrightarrow>
   set (erase_at i xs) = {e \<in> set xs. fst e \<noteq> fst (xs ! i)}"
proof (induction xs arbitrary: i)
  case Nil
  then show ?case by simp
next
  case (Cons x xs)
  show ?case
  proof (cases i)
    case 0
    with Cons.prems show ?thesis by (auto simp: image_iff)
  next
    case (Suc j)
    with Cons.prems have "fst (xs ! j) \<noteq> fst x" by (metis distinct.simps(2) length_Cons list.simps(9) not_less_eq nth_map nth_mem length_map)
    with Cons Suc show ?thesis by auto
  qed
qed

lemma del_set_un: "{e \<in> B. fst e \<noteq> key} = B \<Longrightarrow> del_set key A \<union> B = del_set key (A \<union> B)"
  by (auto simp: del_set_def)

lemma upd_set_un: "{e \<in> B. fst e \<noteq> key} = B \<Longrightarrow> upd_set key val A \<union> B = upd_set key val (A \<union> B)"
  by (auto simp: upd_set_def ins_set_def image_iff)

lemma mem_un_others: "{e \<in> B. fst e \<noteq> key} = B \<Longrightarrow> (key \<in> fst ` (A \<union> B)) = (key \<in> fst ` A)"
  by (auto simp: image_iff)

lemma fst_set_zip: "length vs = length ks \<Longrightarrow> fst ` set (zip ks vs) = set ks"
proof -
  assume "length vs = length ks"
  then have "map fst (zip ks vs) = ks" by simp
  then have "set (map fst (zip ks vs)) = set ks" by simp
  then show ?thesis by (simp only: set_map)
qed

lemma Node_remove_inv:
  "bt_inv lo hi n \<Longrightarrow>
   \<exists>n'. Node_remove key n = Inr (n', key \<in> fst ` set (entries n)) \<and> bt_inv lo hi n' \<and>
     set (entries n') = del_set key (set (entries n))"
proof (induction key n arbitrary: lo hi rule: Node_remove.induct)
  case (1 key a ks vs nx)
  from "1.prems" have len: "length vs = length ks" and srt: "sorted_wrt (<) ks"
    and bnd: "\<forall>k \<in> set ks. in_bounds lo hi k" by simp_all
  let ?idx = "lower_bound ks key"
  have mem: "(key \<in> fst ` set (entries (LeafNode a ks vs nx))) = (key \<in> set ks)"
    using len by (simp add: fst_set_zip)
  show ?case
  proof (cases "key \<in> set ks")
    case True
    with srt have f: "?idx < length ks" "ks ! ?idx = key"
      using lower_bound_found[of ks key] by auto
    have d: "distinct (map fst (zip ks vs))" using len srt by (simp add: sorted_wrt_less_distinct)
    have e: "set (zip (erase_at ?idx ks) (erase_at ?idx vs)) = del_set key (set (zip ks vs))"
      using set_erase_at_distinct[OF d, of ?idx] f len by (simp add: zip_erase_at del_set_def)
    have b: "\<forall>k \<in> set (erase_at ?idx ks). in_bounds lo hi k"
      using bnd set_erase_at_subset[of ?idx ks] by blast
    have res: "Node_remove key (LeafNode a ks vs nx)
        = Inr (LeafNode a (erase_at ?idx ks) (erase_at ?idx vs) nx, True)"
      using f len by (simp add: Let_def)
    show ?thesis
    proof (intro exI conjI)
      show "Node_remove key (LeafNode a ks vs nx)
          = Inr (LeafNode a (erase_at ?idx ks) (erase_at ?idx vs) nx,
                 key \<in> fst ` set (entries (LeafNode a ks vs nx)))"
        using res mem True by simp
      show "bt_inv lo hi (LeafNode a (erase_at ?idx ks) (erase_at ?idx vs) nx)"
        using b f len sorted_erase_at[OF srt, of ?idx] by simp
      show "set (entries (LeafNode a (erase_at ?idx ks) (erase_at ?idx vs) nx))
          = del_set key (set (entries (LeafNode a ks vs nx)))"
        using e by simp
    qed
  next
    case False
    with srt have nf: "\<not> (?idx < length ks \<and> ks ! ?idx = key)"
      using lower_bound_found[of ks key] by auto
    have e: "del_set key (set (zip ks vs)) = set (zip ks vs)"
      using False by (simp add: del_set_def set_zip_fresh)
    have res: "Node_remove key (LeafNode a ks vs nx) = Inr (LeafNode a ks vs nx, False)"
      using nf by (auto simp: Let_def)
    show ?thesis
    proof (intro exI conjI)
      show "Node_remove key (LeafNode a ks vs nx)
          = Inr (LeafNode a ks vs nx, key \<in> fst ` set (entries (LeafNode a ks vs nx)))"
        using res mem False by simp
      show "bt_inv lo hi (LeafNode a ks vs nx)" by (rule "1.prems")
      show "set (entries (LeafNode a ks vs nx)) = del_set key (set (entries (LeafNode a ks vs nx)))"
        using e by simp
    qed
  qed
next
  case (2 key ks cs)
  let ?idx = "upper_bound ks key"
  let ?clo = "child_lo lo ks ?idx" and ?chi = "child_hi hi ks ?idx"
  from "2.prems" have il: "bt_inv_list lo hi ks cs" by simp
  then have len: "length cs = Suc (length ks)" by (rule bt_inv_list_length)
  have idx: "?idx < length cs" using len upper_bound_le[of ks key] by simp
  have cinv: "bt_inv ?clo ?chi (cs ! ?idx)" by (rule bt_inv_list_nth[OF il idx])
  from "2.IH"[OF refl idx cinv] obtain c' where
    rm: "Node_remove key (cs ! ?idx) = Inr (c', key \<in> fst ` set (entries (cs ! ?idx)))"
    and c': "bt_inv ?clo ?chi c'"
    and e: "set (entries c') = del_set key (set (entries (cs ! ?idx)))"
    by blast
  note onk = others_no_key[OF il, of key]
  have eid: "set (entries (InternalNode ks cs)) = set (entries (cs ! ?idx)) \<union> others cs ?idx"
    using entries_children_id[OF idx] by simp
  have mem: "(key \<in> fst ` set (entries (cs ! ?idx))) = (key \<in> fst ` set (entries (InternalNode ks cs)))"
    using mem_un_others[OF onk, of "set (entries (cs ! ?idx))"] by (simp only: eid)
  show ?case
  proof (intro exI conjI)
    show "Node_remove key (InternalNode ks cs)
        = Inr (InternalNode ks (cs[?idx := c']), key \<in> fst ` set (entries (InternalNode ks cs)))"
      using rm idx by (simp add: Let_def mem del: entries.simps)
    show "bt_inv lo hi (InternalNode ks (cs[?idx := c']))"
      using bt_inv_list_update[OF il idx c'] by simp
    show "set (entries (InternalNode ks (cs[?idx := c'])))
        = del_set key (set (entries (InternalNode ks cs)))"
      using entries_children_update[OF idx, of c'] e eid del_set_un[OF onk] by simp
  qed
qed

lemma Node_update_inv:
  "bt_inv lo hi n \<Longrightarrow>
   \<exists>n'. Node_update key val n = Inr (n', key \<in> fst ` set (entries n)) \<and> bt_inv lo hi n' \<and>
     set (entries n') = upd_set key val (set (entries n))"
proof (induction key val n arbitrary: lo hi rule: Node_update.induct)
  case (1 key val a ks vs nx)
  from "1.prems" have len: "length vs = length ks" and srt: "sorted_wrt (<) ks"
    and bnd: "\<forall>k \<in> set ks. in_bounds lo hi k" by simp_all
  let ?idx = "lower_bound ks key"
  have mem: "(key \<in> fst ` set (entries (LeafNode a ks vs nx))) = (key \<in> set ks)"
    using len by (simp add: fst_set_zip)
  show ?case
  proof (cases "key \<in> set ks")
    case True
    with srt have f: "?idx < length ks" "ks ! ?idx = key"
      using lower_bound_found[of ks key] by auto
    have e: "set (zip ks (vs[?idx := val])) = ins_set key val (set (zip ks vs))"
      using set_zip_update[of ks ?idx vs val] f len srt
      by (simp add: ins_set_def sorted_wrt_less_distinct)
    have res: "Node_update key val (LeafNode a ks vs nx)
        = Inr (LeafNode a ks (vs[?idx := val]) nx, True)"
      using f len by (simp add: Let_def)
    show ?thesis
    proof (intro exI conjI)
      show "Node_update key val (LeafNode a ks vs nx)
          = Inr (LeafNode a ks (vs[?idx := val]) nx,
                 key \<in> fst ` set (entries (LeafNode a ks vs nx)))"
        using res mem True by simp
      show "bt_inv lo hi (LeafNode a ks (vs[?idx := val]) nx)"
        using bnd len srt by simp
      show "set (entries (LeafNode a ks (vs[?idx := val]) nx))
          = upd_set key val (set (entries (LeafNode a ks vs nx)))"
        using e mem True by (simp add: upd_set_def)
    qed
  next
    case False
    with srt have nf: "\<not> (?idx < length ks \<and> ks ! ?idx = key)"
      using lower_bound_found[of ks key] by auto
    have res: "Node_update key val (LeafNode a ks vs nx) = Inr (LeafNode a ks vs nx, False)"
      using nf by (auto simp: Let_def)
    show ?thesis
    proof (intro exI conjI)
      show "Node_update key val (LeafNode a ks vs nx)
          = Inr (LeafNode a ks vs nx, key \<in> fst ` set (entries (LeafNode a ks vs nx)))"
        using res mem False by simp
      show "bt_inv lo hi (LeafNode a ks vs nx)" by (rule "1.prems")
      show "set (entries (LeafNode a ks vs nx))
          = upd_set key val (set (entries (LeafNode a ks vs nx)))"
        using mem False by (simp add: upd_set_def)
    qed
  qed
next
  case (2 key val ks cs)
  let ?idx = "upper_bound ks key"
  let ?clo = "child_lo lo ks ?idx" and ?chi = "child_hi hi ks ?idx"
  from "2.prems" have il: "bt_inv_list lo hi ks cs" by simp
  then have len: "length cs = Suc (length ks)" by (rule bt_inv_list_length)
  have idx: "?idx < length cs" using len upper_bound_le[of ks key] by simp
  have cinv: "bt_inv ?clo ?chi (cs ! ?idx)" by (rule bt_inv_list_nth[OF il idx])
  from "2.IH"[OF refl idx cinv] obtain c' where
    rm: "Node_update key val (cs ! ?idx) = Inr (c', key \<in> fst ` set (entries (cs ! ?idx)))"
    and c': "bt_inv ?clo ?chi c'"
    and e: "set (entries c') = upd_set key val (set (entries (cs ! ?idx)))"
    by blast
  note onk = others_no_key[OF il, of key]
  have eid: "set (entries (InternalNode ks cs)) = set (entries (cs ! ?idx)) \<union> others cs ?idx"
    using entries_children_id[OF idx] by simp
  have mem: "(key \<in> fst ` set (entries (cs ! ?idx))) = (key \<in> fst ` set (entries (InternalNode ks cs)))"
    using mem_un_others[OF onk, of "set (entries (cs ! ?idx))"] by (simp only: eid)
  show ?case
  proof (intro exI conjI)
    show "Node_update key val (InternalNode ks cs)
        = Inr (InternalNode ks (cs[?idx := c']), key \<in> fst ` set (entries (InternalNode ks cs)))"
      using rm idx by (simp add: Let_def mem del: entries.simps)
    show "bt_inv lo hi (InternalNode ks (cs[?idx := c']))"
      using bt_inv_list_update[OF il idx c'] by simp
    show "set (entries (InternalNode ks (cs[?idx := c'])))
        = upd_set key val (set (entries (InternalNode ks cs)))"
      using entries_children_update[OF idx, of c'] e eid upd_set_un[OF onk] by simp
  qed
qed

lemma map_of_concat_nth:
  "i < length xss \<Longrightarrow> (\<forall>j < length xss. j \<noteq> i \<longrightarrow> key \<notin> fst ` set (xss ! j)) \<Longrightarrow>
   map_of (concat xss) key = map_of (xss ! i) key"
proof (induction xss arbitrary: i)
  case Nil
  then show ?case by simp
next
  case (Cons xs xss)
  show ?case
  proof (cases i)
    case 0
    have "key \<notin> fst ` set (concat xss)"
    proof
      assume "key \<in> fst ` set (concat xss)"
      then obtain ys where "ys \<in> set xss" "key \<in> fst ` set ys" by auto
      then obtain j where "j < length xss" "key \<in> fst ` set (xss ! j)"
        by (auto simp: in_set_conv_nth)
      with Cons.prems(2)[rule_format, of "Suc j"] 0 show False by simp
    qed
    then have "map_of (concat xss) key = None" by (simp add: map_of_eq_None_iff)
    with 0 show ?thesis by (simp add: map_add_def split: option.splits)
  next
    case (Suc i')
    from Cons.prems(2)[rule_format, of 0] Suc have "key \<notin> fst ` set xs" by simp
    then have n: "map_of xs key = None" by (simp add: map_of_eq_None_iff)
    have "map_of (concat xss) key = map_of (xss ! i') key"
    proof (rule Cons.IH)
      show "i' < length xss" using Cons.prems(1) Suc by simp
      show "\<forall>j<length xss. j \<noteq> i' \<longrightarrow> key \<notin> fst ` set (xss ! j)"
        using Cons.prems(2)[rule_format, of "Suc j" for j] Suc by auto
    qed
    with n Suc show ?thesis by (simp add: map_add_def)
  qed
qed

lemma Node_find_map_of:
  "bt_inv lo hi n \<Longrightarrow> Node_find key n = Inr (map_of (entries n) key)"
proof (induction key n arbitrary: lo hi rule: Node_find.induct)
  case (1 key a ks vs nx)
  then have len: "length vs = length ks" and srt: "sorted_wrt (<) ks" by auto
  let ?idx = "lower_bound ks key"
  show ?case
  proof (cases "key \<in> set ks")
    case True
    with srt have f: "?idx < length ks" "ks ! ?idx = key"
      using lower_bound_found[of ks key] by auto
    have "map_of (zip ks vs) (ks ! ?idx) = Some (vs ! ?idx)"
      using len srt f by (intro map_of_zip_nth) (simp_all add: sorted_wrt_less_distinct)
    with f len show ?thesis by simp
  next
    case False
    with srt have nf: "\<not> (?idx < length ks \<and> ks ! ?idx = key)"
      using lower_bound_found[of ks key] by auto
    have "map_of (zip ks vs) key = None"
      using False len by (simp add: map_of_zip_is_None)
    with nf show ?thesis by auto
  qed
next
  case (2 key ks cs)
  let ?idx = "upper_bound ks key"
  from "2.prems" have il: "bt_inv_list lo hi ks cs" by simp
  then have len: "length cs = Suc (length ks)" by (rule bt_inv_list_length)
  have idx: "?idx < length cs" using len upper_bound_le[of ks key] by simp
  have cinv: "bt_inv (child_lo lo ks ?idx) (child_hi hi ks ?idx) (cs ! ?idx)"
    by (rule bt_inv_list_nth[OF il idx])
  have "map_of (concat (map entries cs)) key = map_of (map entries cs ! ?idx) key"
  proof (rule map_of_concat_nth)
    show "?idx < length (map entries cs)" using idx by simp
    show "\<forall>j<length (map entries cs). j \<noteq> ?idx \<longrightarrow> key \<notin> fst ` set (map entries cs ! j)"
      using sibling_no_key[OF il] by auto
  qed
  with "2.IH"[OF refl idx cinv] idx show ?case by simp
qed

lemma bt_inv_sorted:
  "bt_inv lo hi (n :: ('k::linorder, 'v) Node) \<Longrightarrow> sorted_wrt (<) (map fst (entries n))"
  and bt_inv_list_sorted:
  "bt_inv_list lo hi ks (cs :: ('k::linorder, 'v) Node list) \<Longrightarrow>
     sorted_wrt (<) (map fst (concat (map entries cs)))"
proof (induction lo hi n and lo hi ks cs rule: bt_inv_bt_inv_list.induct)
  case (1 lo hi a ks vs nx)
  then show ?case by simp
next
  case (2 lo hi ks cs)
  then show ?case by simp
next
  case (3 lo hi cs)
  then show ?case by (auto split: list.splits)
next
  case (4 lo hi k ks cs)
  from "4.prems" obtain c0 cs' where cs: "cs = c0 # cs'" and c0: "bt_inv lo (Some k) c0"
    and rest: "bt_inv_list (Some k) hi ks cs'"
    by (auto split: list.splits)
  have s1: "sorted_wrt (<) (map fst (entries c0))" by (rule "4.IH"(1)[OF cs c0])
  have s2: "sorted_wrt (<) (map fst (concat (map entries cs')))" by (rule "4.IH"(2)[OF cs rest])
  have lt: "x < k" if "x \<in> fst ` set (entries c0)" for x
    using bt_inv_in_bounds[OF c0] that by (auto simp: in_bounds_def)
  have ge: "k \<le> y" if "y \<in> fst ` set (concat (map entries cs'))" for y
    using bt_inv_list_in_bounds[OF rest] that by (fastforce simp: in_bounds_def)
  have "x < y" if "x \<in> fst ` set (entries c0)" "y \<in> fst ` set (concat (map entries cs'))" for x y
    using lt[OF that(1)] ge[OF that(2)] by simp
  with s1 s2 cs show ?case by (simp add: sorted_wrt_append)
qed

lemma bt_inv_distinct: "bt_inv lo hi n \<Longrightarrow> distinct (map fst (entries n))"
  by (rule sorted_wrt_less_distinct) (rule bt_inv_sorted)

lemma map_eqI_Some: "(\<And>k v. (m1 k = Some v) = (m2 k = Some v)) \<Longrightarrow> m1 = m2"
proof
  fix k
  assume h: "\<And>k v. (m1 k = Some v) = (m2 k = Some v)"
  show "m1 k = m2 k"
  proof (cases "m1 k")
    case None
    with h[of k] show ?thesis by (cases "m2 k") auto
  next
    case (Some v)
    with h[of k v] show ?thesis by simp
  qed
qed

lemma map_of_ins_set:
  assumes "distinct (map fst xs)" "distinct (map fst ys)" "set ys = ins_set key val (set xs)"
  shows "map_of ys = (map_of xs)(key \<mapsto> val)"
proof (rule map_eqI_Some)
  fix k v
  show "(map_of ys k = Some v) = (((map_of xs)(key \<mapsto> val)) k = Some v)"
    using assms by (auto simp: map_of_eq_Some_iff ins_set_def)
qed

lemma map_of_del_set:
  assumes "distinct (map fst xs)" "distinct (map fst ys)" "set ys = del_set key (set xs)"
  shows "map_of ys = (map_of xs)(key := None)"
proof (rule map_eqI_Some)
  fix k v
  show "(map_of ys k = Some v) = (((map_of xs)(key := None)) k = Some v)"
    using assms by (auto simp: map_of_eq_Some_iff del_set_def)
qed

lemma map_of_upd_set:
  assumes "distinct (map fst xs)" "distinct (map fst ys)" "set ys = upd_set key val (set xs)"
  shows "map_of ys = (if key \<in> dom (map_of xs) then (map_of xs)(key \<mapsto> val) else map_of xs)"
proof (cases "key \<in> fst ` set xs")
  case True
  with assms map_of_ins_set[of xs ys key val] show ?thesis
    by (simp add: upd_set_def dom_map_of_conv_image_fst)
next
  case False
  with assms(3) have "set ys = set xs" by (simp add: upd_set_def)
  with assms(1,2) have "map_of ys = map_of xs"
    by (intro map_eqI_Some) (simp add: map_of_eq_Some_iff)
  with False show ?thesis by (simp add: dom_map_of_conv_image_fst)
qed

lemma tree_inv_new: "tree_inv BPlusTree_new"
  by (simp add: tree_inv_def BPlusTree_new_def)

lemma bt_map_new: "bt_map BPlusTree_new = Map.empty"
  by (simp add: bt_map_def BPlusTree_new_def)

lemma in_bounds_None [simp]: "in_bounds None None k"
  by (simp add: in_bounds_def)

lemma BPlusTree_find_map: "tree_inv t \<Longrightarrow> BPlusTree_find key t = Inr (bt_map t key)"
  by (simp add: tree_inv_def BPlusTree_find_def bt_map_def Node_find_map_of)

lemma BPlusTree_insert_map:
  assumes "tree_inv t"
  shows "\<exists>t'. BPlusTree_insert key val t = Inr t' \<and> tree_inv t' \<and>
           bt_map t' = (bt_map t)(key \<mapsto> val)"
proof -
  from assms have inv: "bt_inv None None (root t)" by (simp add: tree_inv_def)
  from Node_insert_inv[OF inv in_bounds_None, of key val "next_addr t"]
  obtain n' res fresh' where
    ins: "Node_insert key val (next_addr t) (root t) = Inr (n', res, fresh')"
    and post: "case res of
        None \<Rightarrow> bt_inv None None n' \<and> set (entries n') = ins_set key val (set (entries (root t)))
      | Some (sep, r) \<Rightarrow> sep_ok None None sep \<and> bt_inv None (Some sep) n' \<and> bt_inv (Some sep) None r \<and>
          set (entries n') \<union> set (entries r) = ins_set key val (set (entries (root t)))"
    by blast
  note d = bt_inv_distinct[OF inv]
  show ?thesis
  proof (cases res)
    case None
    with post have i': "bt_inv None None n'"
      and e: "set (entries n') = ins_set key val (set (entries (root t)))" by simp_all
    from map_of_ins_set[OF d bt_inv_distinct[OF i'] e] ins None i' show ?thesis
      by (simp add: BPlusTree_insert_def tree_inv_def bt_map_def)
  next
    case (Some p)
    obtain sep r where p: "p = (sep, r)" by (cases p)
    with Some post have s: "sep_ok None None sep" and i1: "bt_inv None (Some sep) n'"
      and i2: "bt_inv (Some sep) None r"
      and e: "set (entries n') \<union> set (entries r) = ins_set key val (set (entries (root t)))"
      by simp_all
    let ?r = "InternalNode [sep] [n', r]"
    have i': "bt_inv None None ?r" using s i1 i2 by simp
    have e': "set (entries ?r) = ins_set key val (set (entries (root t)))" using e by simp
    from map_of_ins_set[OF d bt_inv_distinct[OF i'] e'] ins Some p i' show ?thesis
      by (simp add: BPlusTree_insert_def tree_inv_def bt_map_def)
  qed
qed

lemma BPlusTree_update_map:
  assumes "tree_inv t"
  shows "\<exists>t'. BPlusTree_update key val t = Inr (t', key \<in> dom (bt_map t)) \<and> tree_inv t' \<and>
           bt_map t' = (if key \<in> dom (bt_map t) then (bt_map t)(key \<mapsto> val) else bt_map t)"
proof -
  from assms have inv: "bt_inv None None (root t)" by (simp add: tree_inv_def)
  from Node_update_inv[OF inv, of key val] obtain n' where
    u: "Node_update key val (root t) = Inr (n', key \<in> fst ` set (entries (root t)))"
    and i': "bt_inv None None n'"
    and e: "set (entries n') = upd_set key val (set (entries (root t)))" by blast
  from map_of_upd_set[OF bt_inv_distinct[OF inv] bt_inv_distinct[OF i'] e] u i' show ?thesis
    by (simp add: BPlusTree_update_def tree_inv_def bt_map_def dom_map_of_conv_image_fst)
qed

lemma BPlusTree_remove_map:
  assumes "tree_inv t"
  shows "\<exists>t'. BPlusTree_remove key t = Inr (t', key \<in> dom (bt_map t)) \<and> tree_inv t' \<and>
           bt_map t' = (bt_map t)(key := None)"
proof -
  from assms have inv: "bt_inv None None (root t)" by (simp add: tree_inv_def)
  from Node_remove_inv[OF inv, of key] obtain n' where
    u: "Node_remove key (root t) = Inr (n', key \<in> fst ` set (entries (root t)))"
    and i': "bt_inv None None n'"
    and e: "set (entries n') = del_set key (set (entries (root t)))" by blast
  note m = map_of_del_set[OF bt_inv_distinct[OF inv] bt_inv_distinct[OF i'] e]
  show ?thesis
  proof (cases n')
    case (LeafNode a ks vs nx)
    with m u i' show ?thesis
      by (simp add: BPlusTree_remove_def tree_inv_def bt_map_def dom_map_of_conv_image_fst)
  next
    case (InternalNode ks cs)
    show ?thesis
    proof (cases "key \<in> fst ` set (entries (root t)) \<and> ks = []")
      case False
      with InternalNode m u i' show ?thesis
        by (auto simp: BPlusTree_remove_def tree_inv_def bt_map_def dom_map_of_conv_image_fst)
    next
      case True
      with InternalNode i' obtain c where cs: "cs = [c]" and c: "bt_inv None None c"
        by (auto split: list.splits)
      with True InternalNode m u show ?thesis
        by (simp add: BPlusTree_remove_def tree_inv_def bt_map_def dom_map_of_conv_image_fst)
    qed
  qed
qed

lemma BPlusTree_apply_map:
  assumes "tree_inv t"
  shows "\<exists>t'. BPlusTree_apply op t = Inr t' \<and> tree_inv t' \<and> bt_map t' = map_apply op (bt_map t)"
proof (cases op)
  case (BtInsert k v)
  with BPlusTree_insert_map[OF assms, of k v] show ?thesis by auto
next
  case (BtUpdate k v)
  with BPlusTree_update_map[OF assms, of k v] show ?thesis by auto
next
  case (BtRemove k)
  with BPlusTree_remove_map[OF assms, of k] show ?thesis by auto
qed

lemma BPlusTree_run_map:
  "tree_inv t \<Longrightarrow>
   \<exists>t'. BPlusTree_run ops t = Inr t' \<and> tree_inv t' \<and> bt_map t' = fold map_apply ops (bt_map t)"
proof (induction ops arbitrary: t)
  case Nil
  then show ?case by simp
next
  case (Cons op ops)
  from BPlusTree_apply_map[OF Cons.prems, of op] obtain t1 where
    a: "BPlusTree_apply op t = Inr t1" and i: "tree_inv t1"
    and m: "bt_map t1 = map_apply op (bt_map t)" by blast
  from Cons.IH[OF i] a m show ?case by auto
qed

lemma BPlusTree_run_append:
  "BPlusTree_run (xs @ ys) t =
    (case BPlusTree_run xs t of Inl e \<Rightarrow> Inl e | Inr t' \<Rightarrow> BPlusTree_run ys t')"
  by (induction xs arbitrary: t) (auto split: sum.splits)

lemma fold_map_apply_other:
  "\<forall>op \<in> set ops. bt_op_key op \<noteq> k \<Longrightarrow> fold map_apply ops m k = m k"
proof (induction ops arbitrary: m)
  case Nil
  then show ?case by simp
next
  case (Cons op ops)
  then have "map_apply op m k = m k" by (cases op) auto
  with Cons show ?case by simp
qed

lemma leaves_keys:
  "bt_inv lo hi (n :: ('k::linorder, 'v) Node) \<Longrightarrow> concat (map lkeys (leaves n)) = map fst (entries n)"
  and leaves_keys_list:
  "bt_inv_list lo hi ks (cs :: ('k::linorder, 'v) Node list) \<Longrightarrow>
     concat (map lkeys (concat (map leaves cs))) = map fst (concat (map entries cs))"
proof (induction lo hi n and lo hi ks cs rule: bt_inv_bt_inv_list.induct)
  case (1 lo hi a ks vs nx)
  then show ?case by simp
next
  case (2 lo hi ks cs)
  then show ?case by simp
next
  case (3 lo hi cs)
  then show ?case by (auto split: list.splits)
next
  case (4 lo hi k ks cs)
  then show ?case by (auto split: list.splits)
qed

lemma count_list_distinct: "distinct xs \<Longrightarrow> x \<in> set xs \<Longrightarrow> count_list xs x = 1"
  by (induction xs) (auto simp: count_list_0_iff)

lemma tree_keys_map: "tree_inv t \<Longrightarrow> set (tree_keys t) = dom (bt_map t) \<and> distinct (tree_keys t)"
  by (simp add: tree_inv_def tree_keys_def bt_map_def leaves_keys bt_inv_distinct
      dom_map_of_conv_image_fst)

lemma leaves_list_nth:
  "idx < length cs \<Longrightarrow>
   leaves_list cs = leaves_list (take idx cs) @ leaves (cs ! idx) @ leaves_list (drop (Suc idx) cs)"
proof -
  assume "idx < length cs"
  then have "cs = take idx cs @ cs ! idx # drop (Suc idx) cs" by (rule id_take_nth_drop)
  then have "leaves_list cs = leaves_list (take idx cs @ cs ! idx # drop (Suc idx) cs)" by simp
  then show ?thesis by (simp add: leaves_list_def)
qed

lemma leaves_list_update:
  "idx < length cs \<Longrightarrow>
   leaves_list (cs[idx := c']) = leaves_list (take idx cs) @ leaves c' @ leaves_list (drop (Suc idx) cs)"
  by (simp add: upd_conv_take_nth_drop leaves_list_def)

lemma leaves_list_insert:
  "idx < length cs \<Longrightarrow>
   leaves_list (insert_at (Suc idx) r (cs[idx := c']))
     = leaves_list (take idx cs) @ (leaves c' @ leaves r) @ leaves_list (drop (Suc idx) cs)"
  by (simp add: upd_conv_take_nth_drop leaves_list_def insert_at_def)

lemma leaves_list_take_drop: "leaves_list (take m cs) @ leaves_list (drop m cs) = leaves_list cs"
  by (metis append_take_drop_id concat_append leaves_list_def map_append)

lemma LeafNode_insert_leaves:
  assumes "LeafNode_insert key val fresh a ks vs nx = Inr (n', res, fresh')"
  shows "\<exists>l'. addr l' = a \<and>
      ((fresh' = fresh \<and> lnext l' = nx \<and> leaves n' @ res_leaves res = [l']) \<or>
       (fresh' = Suc fresh \<and> lnext l' = Some fresh \<and>
        (\<exists>ks' vs'. leaves n' @ res_leaves res = [l', LeafNode fresh ks' vs' nx])))"
  using assms
  by (auto simp: LeafNode_insert_def Let_def split: if_splits list.splits)

lemma Node_insert_leaves:
  "Node_insert key val fresh n = Inr (n', res, fresh') \<Longrightarrow>
   \<exists>L l R l'. leaves n = L @ l # R \<and> addr l' = addr l \<and>
      ((fresh' = fresh \<and> lnext l' = lnext l \<and> leaves n' @ res_leaves res = L @ l' # R) \<or>
       (fresh' = Suc fresh \<and> lnext l' = Some fresh \<and>
        (\<exists>ks' vs'. leaves n' @ res_leaves res = L @ l' # LeafNode fresh ks' vs' (lnext l) # R)))"
proof (induction key val fresh n arbitrary: n' res fresh' rule: Node_insert.induct)
  case (1 key val fresh a ks vs nx)
  then have "LeafNode_insert key val fresh a ks vs nx = Inr (n', res, fresh')" by simp
  from LeafNode_insert_leaves[OF this] obtain l' where l': "addr l' = a"
    "(fresh' = fresh \<and> lnext l' = nx \<and> leaves n' @ res_leaves res = [l']) \<or>
       (fresh' = Suc fresh \<and> lnext l' = Some fresh \<and>
        (\<exists>ks' vs'. leaves n' @ res_leaves res = [l', LeafNode fresh ks' vs' nx]))" by blast
  show ?case
    by (rule exI[of _ "[]"], rule exI[of _ "LeafNode a ks vs nx"], rule exI[of _ "[]"],
        rule exI[of _ l']) (use l' in simp)
next
  case (2 key val fresh ks cs)
  let ?idx = "upper_bound ks key"
  let ?A = "leaves_list (take ?idx cs)" and ?B = "leaves_list (drop (Suc ?idx) cs)"
  from "2.prems" have idx: "?idx < length cs" by (auto simp: Let_def split: if_splits)
  from "2.prems" idx obtain c' cres where
    child: "Node_insert key val fresh (cs ! ?idx) = Inr (c', cres, fresh')"
    and after: "leaves n' @ res_leaves res = ?A @ (leaves c' @ res_leaves cres) @ ?B"
  proof -
    from "2.prems" idx obtain c' cres f1 where
      ch: "Node_insert key val fresh (cs ! ?idx) = Inr (c', cres, f1)"
      by (auto simp: Let_def split: sum.splits)
    show ?thesis
    proof (cases cres)
      case None
      with "2.prems" idx ch have "n' = InternalNode ks (cs[?idx := c'])" "res = None" "fresh' = f1"
        by (auto simp: Let_def)
      with ch None leaves_list_update[OF idx, of c'] that show ?thesis
        by (simp add: leaves_list_def)
    next
      case (Some p)
      obtain rkey rnode where p: "p = (rkey, rnode)" by (cases p)
      let ?ks = "insert_at ?idx rkey ks" and ?cs = "insert_at (Suc ?idx) rnode (cs[?idx := c'])"
      have all: "leaves_list ?cs = ?A @ (leaves c' @ leaves rnode) @ ?B"
        by (rule leaves_list_insert[OF idx])
      show ?thesis
      proof (cases "Order < length ?ks")
        case False
        with "2.prems" idx ch Some p have "n' = InternalNode ?ks ?cs" "res = None" "fresh' = f1"
          by (auto simp: Let_def)
        with ch Some p all that show ?thesis by (simp add: leaves_list_def)
      next
        case True
        let ?mid = "length ?ks div 2"
        from "2.prems" idx ch Some p True have
          "n' = InternalNode (take ?mid ?ks) (take (Suc ?mid) ?cs)"
          "res = Some (?ks ! ?mid, InternalNode (drop (Suc ?mid) ?ks) (drop (Suc ?mid) ?cs))"
          "fresh' = f1"
          by (auto simp: Let_def split: if_splits)
        then have "leaves n' @ res_leaves res
            = leaves_list (take (Suc ?mid) ?cs) @ leaves_list (drop (Suc ?mid) ?cs)"
          by (simp add: leaves_list_def)
        with all leaves_list_take_drop[of "Suc ?mid" ?cs] ch Some p \<open>fresh' = f1\<close> that
        show ?thesis by simp
      qed
    qed
  qed
  from "2.IH"[OF refl idx child] obtain L l R l' where
    sh: "leaves (cs ! ?idx) = L @ l # R" and a: "addr l' = addr l"
    and alt: "(fresh' = fresh \<and> lnext l' = lnext l \<and> leaves c' @ res_leaves cres = L @ l' # R) \<or>
       (fresh' = Suc fresh \<and> lnext l' = Some fresh \<and>
        (\<exists>ks' vs'. leaves c' @ res_leaves cres = L @ l' # LeafNode fresh ks' vs' (lnext l) # R))"
    by blast
  have before: "leaves (InternalNode ks cs) = (?A @ L) @ l # (R @ ?B)"
    using leaves_list_nth[OF idx] sh by (simp add: leaves_list_def)
  show ?case
    by (rule exI[of _ "?A @ L"], rule exI[of _ l], rule exI[of _ "R @ ?B"], rule exI[of _ l'])
       (use before a alt after in auto)
qed

lemma chain_ok_replace:
  "chain_ok (L @ l # R) final \<Longrightarrow> addr l' = addr l \<Longrightarrow> lnext l' = lnext l \<Longrightarrow>
   chain_ok (L @ l' # R) final"
proof (induction L)
  case Nil
  then show ?case by simp
next
  case (Cons x L)
  then show ?case by (cases L) auto
qed

lemma chain_ok_split:
  "chain_ok (L @ l # R) final \<Longrightarrow> addr l' = addr l \<Longrightarrow> lnext l' = Some (addr new) \<Longrightarrow>
   lnext new = lnext l \<Longrightarrow> chain_ok (L @ l' # new # R) final"
proof (induction L)
  case Nil
  then show ?case by simp
next
  case (Cons x L)
  then show ?case by (cases L) auto
qed

lemma leaves_are_leaves: "l \<in> set (leaves n) \<Longrightarrow> \<exists>a ks vs nx. l = LeafNode a ks vs nx"
  by (induction n arbitrary: l) auto

lemma BPlusTree_insert_chain:
  assumes "chain_inv t" "BPlusTree_insert key val t = Inr t'"
  shows "chain_inv t'"
proof -
  from assms(2) obtain n' res fresh' where
    ins: "Node_insert key val (next_addr t) (root t) = Inr (n', res, fresh')"
    and t': "leaves (root t') = leaves n' @ res_leaves res" "next_addr t' = fresh'"
    by (auto simp: BPlusTree_insert_def split: sum.splits option.splits prod.splits)
  let ?f = "next_addr t"
  from Node_insert_leaves[OF ins] obtain L l R l' where
    sh: "leaves (root t) = L @ l # R" and a: "addr l' = addr l"
    and alt: "(fresh' = ?f \<and> lnext l' = lnext l \<and> leaves n' @ res_leaves res = L @ l' # R) \<or>
       (fresh' = Suc ?f \<and> lnext l' = Some ?f \<and>
        (\<exists>ks' vs'. leaves n' @ res_leaves res = L @ l' # LeafNode ?f ks' vs' (lnext l) # R))"
    by blast
  from assms(1) sh have c: "chain_ok (L @ l # R) None" and d: "distinct (map addr (L @ l # R))"
    and b: "\<forall>x \<in> set (L @ l # R). addr x < ?f"
    by (simp_all add: chain_inv_def)
  from alt show ?thesis
  proof
    assume h: "fresh' = ?f \<and> lnext l' = lnext l \<and> leaves n' @ res_leaves res = L @ l' # R"
    with chain_ok_replace[OF c a] have "chain_ok (L @ l' # R) None" by simp
    with h t' d b a show ?thesis by (auto simp: chain_inv_def)
  next
    assume h: "fresh' = Suc ?f \<and> lnext l' = Some ?f \<and>
        (\<exists>ks' vs'. leaves n' @ res_leaves res = L @ l' # LeafNode ?f ks' vs' (lnext l) # R)"
    then obtain ks' vs' where
      e: "leaves n' @ res_leaves res = L @ l' # LeafNode ?f ks' vs' (lnext l) # R" by blast
    have "chain_ok (L @ l' # LeafNode ?f ks' vs' (lnext l) # R) None"
      using chain_ok_split[OF c a, of "LeafNode ?f ks' vs' (lnext l)"] h by simp
    moreover have "distinct (map addr (L @ l' # LeafNode ?f ks' vs' (lnext l) # R))"
      using d b a by auto
    moreover have "\<forall>x \<in> set (L @ l' # LeafNode ?f ks' vs' (lnext l) # R). addr x < Suc ?f"
      using b a by (auto simp: less_Suc_eq)
    ultimately show ?thesis using h e t' by (simp add: chain_inv_def)
  qed
qed

lemma chain_inv_new: "chain_inv BPlusTree_new"
  by (simp add: chain_inv_def BPlusTree_new_def)

lemma find_distinct_addr:
  "distinct (map addr ls) \<Longrightarrow> l \<in> set ls \<Longrightarrow> List.find (\<lambda>x. addr x = addr l) ls = Some l"
  by (induction ls) (auto simp: image_iff)

lemma chain_keys_suffix:
  assumes "distinct (map addr (leaves store))"
  shows "set (l # rest) \<subseteq> set (leaves store) \<Longrightarrow> chain_ok (l # rest) None \<Longrightarrow>
     chain_keys (Suc (length rest)) store l = Some (concat (map lkeys (l # rest)))"
proof (induction rest arbitrary: l)
  case Nil
  then obtain a ks vs nx where "l = LeafNode a ks vs nx"
    using leaves_are_leaves[of l store] by auto
  with Nil show ?case by simp
next
  case (Cons l2 rest)
  then obtain a ks vs nx where l: "l = LeafNode a ks vs nx"
    using leaves_are_leaves[of l store] by auto
  from Cons.prems have nx: "lnext l = Some (addr l2)" and c: "chain_ok (l2 # rest) None"
    and sub: "set (l2 # rest) \<subseteq> set (leaves store)" by auto
  have "deref store (addr l2) = Some l2"
    using find_distinct_addr[OF assms, of l2] sub by (simp add: deref_def)
  with Cons.IH[OF sub c] l nx show ?case by simp
qed

lemma leftmost_leaf_hd:
  "bt_inv lo hi n \<Longrightarrow> \<exists>l rest. leaves n = l # rest \<and> leftmost_leaf n = Some l"
proof (induction n arbitrary: lo hi rule: leftmost_leaf.induct)
  case (1 a ks vs nx)
  then show ?case by simp
next
  case (2 ks)
  then show ?case by (cases ks) auto
next
  case (3 ks c cs)
  from "3.prems" have "bt_inv_list lo hi ks (c # cs)" by simp
  from bt_inv_list_nth[OF this, of 0] have "bt_inv (child_lo lo ks 0) (child_hi hi ks 0) c" by simp
  from "3.IH"[OF this] show ?case by auto
qed

lemma leaf_chain_keys:
  assumes "tree_inv t" "chain_inv t"
  shows "leaf_chain (length (leaves (root t))) t = Some (tree_keys t)"
proof -
  from assms(1) leftmost_leaf_hd[of None None "root t"] obtain l rest where
    lv: "leaves (root t) = l # rest" and lm: "leftmost_leaf (root t) = Some l"
    by (auto simp: tree_inv_def)
  from assms(2) lv have d: "distinct (map addr (leaves (root t)))" and c: "chain_ok (l # rest) None"
    by (simp_all add: chain_inv_def)
  have "chain_keys (Suc (length rest)) (root t) l = Some (concat (map lkeys (l # rest)))"
    by (rule chain_keys_suffix[OF d _ c]) (simp add: lv)
  with lv lm show ?thesis by (simp add: leaf_chain_def tree_keys_def)
qed

lemma run_inserts_chain:
  "chain_inv t \<Longrightarrow> BPlusTree_run (inserts_of kvs) t = Inr t' \<Longrightarrow> chain_inv t'"
proof (induction kvs arbitrary: t)
  case Nil
  then show ?case by (simp add: inserts_of_def)
next
  case (Cons kv kvs)
  obtain k v where kv: "kv = (k, v)" by (cases kv)
  from Cons.prems(2) kv obtain t1 where
    i: "BPlusTree_insert k v t = Inr t1" and r: "BPlusTree_run (inserts_of kvs) t1 = Inr t'"
    by (auto simp: inserts_of_def split: sum.splits)
  from Cons.IH[OF BPlusTree_insert_chain[OF Cons.prems(1) i] r] show ?case .
qed

lemma dom_fold_inserts:
  "dom (fold map_apply (inserts_of kvs) m) = dom m \<union> fst ` set kvs"
  by (induction kvs arbitrary: m) (auto simp: inserts_of_def)

section \<open>The leaf chain is in ascending key order\<close>


text \<open>
  Claim C7.  Insert pairs with pairwise distinct keys, in any order, into an empty tree
  of order 4.  Every insertion succeeds, and the traversal that starts at the leftmost
  leaf and follows the \<open>next\<close> links returns (with fuel for the number of leaves) the
  stored keys in strictly ascending order: the list is strictly sorted, it holds exactly
  the inserted keys, and each of them once.
\<close>

theorem leaf_chain_ascending:
  assumes "distinct (map fst kvs)"
  shows "\<exists>t fuel ks.
      BPlusTree_run (inserts_of kvs) BPlusTree_new = Inr t \<and>
      leaf_chain fuel t = Some ks \<and>
      sorted_wrt (<) ks \<and> set ks = fst ` set kvs \<and> length ks = length kvs"
proof -
  from BPlusTree_run_map[OF tree_inv_new, of "inserts_of kvs"] obtain t where
    r: "BPlusTree_run (inserts_of kvs) BPlusTree_new = Inr t" and i: "tree_inv (t :: ('a, 'b) BPlusTree)"
    and m: "bt_map t = fold map_apply (inserts_of kvs) (bt_map BPlusTree_new)" by blast
  have c: "chain_inv t" by (rule run_inserts_chain[OF chain_inv_new r])
  have lc: "leaf_chain (length (leaves (root t))) t = Some (tree_keys t)"
    by (rule leaf_chain_keys[OF i c])
  have s: "sorted_wrt (<) (tree_keys t)"
    using i bt_inv_sorted[of None None "root t"] by (simp add: tree_inv_def tree_keys_def leaves_keys)
  have e: "set (tree_keys t) = fst ` set kvs"
    using tree_keys_map[OF i] m by (simp add: dom_fold_inserts bt_map_new)
  have "distinct (tree_keys t)" using tree_keys_map[OF i] by simp
  with e assms have "length (tree_keys t) = length kvs"
    by (metis distinct_card length_map list.set_map)
  with r lc s e show ?thesis by blast
qed

theorem leaf_chain_ascending_witness:
  "\<exists>t fuel ks.
      BPlusTree_run (inserts_of [(9::int, ''i''), (2, ''b''), (7, ''g''), (4, ''d''), (1, ''a''),
                                 (8, ''h''), (3, ''c'')]) BPlusTree_new = Inr t \<and>
      leaf_chain fuel t = Some ks \<and>
      sorted_wrt (<) ks \<and> set ks = fst ` set [(9::int, ''i''), (2, ''b''), (7, ''g''), (4, ''d''),
                                 (1, ''a''), (8, ''h''), (3, ''c'')] \<and>
      length ks = length [(9::int, ''i''), (2, ''b''), (7, ''g''), (4, ''d''), (1, ''a''),
                                 (8, ''h''), (3, ''c'')]"
  using leaf_chain_ascending[of "[(9::int, ''i''), (2, ''b''), (7, ''g''), (4, ''d''), (1, ''a''),
                                 (8, ''h''), (3, ''c'')]"]
  by simp

section \<open>Reads after writes on the index\<close>


text \<open>
  Claim C9.  Take any tree state reached from the empty tree by a sequence \<open>ops0\<close> of
  inserts, updates and removes.  After \<open>insert(k, v)\<close>, and then any operations
  \<open>ops1\<close> on other keys (so \<open>k\<close> is neither removed nor rewritten since),
  \<open>find(k)\<close> returns \<open>v\<close>.  After a further \<open>insert(k, v2)\<close>, again followed
  by operations \<open>ops2\<close> on other keys, \<open>find(k)\<close> returns \<open>v2\<close>, and \<open>k\<close>
  occurs exactly once among the keys stored in the leaves: the second insert replaced
  the value and created no duplicate.  No operation of the run meets undefined behaviour.
\<close>

theorem insert_find_upsert:
  assumes "\<forall>op \<in> set ops1. bt_op_key op \<noteq> k" and "\<forall>op \<in> set ops2. bt_op_key op \<noteq> k"
  shows "\<exists>t1 t2.
      BPlusTree_run (ops0 @ BtInsert k v # ops1) BPlusTree_new = Inr t1 \<and>
      BPlusTree_find k t1 = Inr (Some v) \<and>
      BPlusTree_run (BtInsert k v2 # ops2) t1 = Inr t2 \<and>
      BPlusTree_find k t2 = Inr (Some v2) \<and>
      count_list (tree_keys t2) k = 1"
proof -
  from BPlusTree_run_map[OF tree_inv_new, of ops0] obtain t0 where
    r0: "BPlusTree_run ops0 BPlusTree_new = Inr t0" and i0: "tree_inv (t0 :: ('a, 'b) BPlusTree)" by blast
  from BPlusTree_run_map[OF i0, of "BtInsert k v # ops1"] obtain t1 where
    r1: "BPlusTree_run (BtInsert k v # ops1) t0 = Inr t1" and i1: "tree_inv t1"
    and m1: "bt_map t1 = fold map_apply (BtInsert k v # ops1) (bt_map t0)" by blast
  from BPlusTree_run_map[OF i1, of "BtInsert k v2 # ops2"] obtain t2 where
    r2: "BPlusTree_run (BtInsert k v2 # ops2) t1 = Inr t2" and i2: "tree_inv t2"
    and m2: "bt_map t2 = fold map_apply (BtInsert k v2 # ops2) (bt_map t1)" by blast
  have f1: "bt_map t1 k = Some v" using m1 fold_map_apply_other[OF assms(1)] by simp
  have f2: "bt_map t2 k = Some v2" using m2 fold_map_apply_other[OF assms(2)] by simp
  have "k \<in> set (tree_keys t2)" using tree_keys_map[OF i2] f2 by auto
  then have c: "count_list (tree_keys t2) k = 1"
    using tree_keys_map[OF i2] by (simp add: count_list_distinct)
  have "BPlusTree_run (ops0 @ BtInsert k v # ops1) BPlusTree_new = Inr t1"
    using r0 r1 by (simp only: BPlusTree_run_append sum.case)
  moreover have "BPlusTree_find k t1 = Inr (Some v)"
    using BPlusTree_find_map[OF i1, of k] f1 by simp
  moreover have "BPlusTree_find k t2 = Inr (Some v2)"
    using BPlusTree_find_map[OF i2, of k] f2 by simp
  ultimately show ?thesis using r2 c by blast
qed

theorem insert_find_upsert_witness:
  "(\<exists>t1 t2.
      BPlusTree_run ([BtInsert (1::int) (10::nat), BtInsert 3 30, BtInsert 5 50, BtInsert 7 70,
                      BtInsert 9 90, BtRemove 7] @ BtInsert 7 71 # [BtInsert 2 20, BtRemove 3])
        BPlusTree_new = Inr t1 \<and>
      BPlusTree_find 7 t1 = Inr (Some 71) \<and>
      BPlusTree_run (BtInsert 7 72 # [BtUpdate 5 55]) t1 = Inr t2 \<and>
      BPlusTree_find 7 t2 = Inr (Some 72) \<and>
      count_list (tree_keys t2) 7 = 1)"
  using insert_find_upsert[of "[BtInsert (2::int) (20::nat), BtRemove 3]" 7 "[BtUpdate (5::int) (55::nat)]"
      "[BtInsert 1 10, BtInsert 3 30, BtInsert 5 50, BtInsert 7 70, BtInsert 9 90, BtRemove 7]" 71 72]
  by simp

section \<open>Concrete runs of the index\<close>


lemmas bt_eval = BPlusTree_insert_def LeafNode_insert_def lower_bound_def upper_bound_def
  insert_at_def erase_at_def Order_def Let_def deref_def BPlusTree_new_def
  BPlusTree_range_scan_def BPlusTree_remove_def BPlusTree_update_def

text \<open>
  Claim C8.  Into an empty tree of order 4 the keys 1, 3, 5, 7, 9, 11, 13 are inserted in
  that order, with arbitrary values.  The run succeeds, and \<open>range_scan(4, 10, visit)\<close>
  returns (for any fuel of at least three leaves) having called \<open>visit\<close> exactly three
  times: on key 5, then on key 7, then on key 9, each with the value stored for it.
\<close>

theorem range_scan_4_10_visits_5_7_9:
  "\<exists>t. BPlusTree_run [BtInsert (1::int) v1, BtInsert 3 v2, BtInsert 5 v3, BtInsert 7 v4,
          BtInsert 9 v5, BtInsert 11 v6, BtInsert 13 v7] BPlusTree_new = Inr t \<and>
       BPlusTree_range_scan (Suc (Suc (Suc fuel))) 4 10 t
         = Some (Inr [(5, v3), (7, v4), (9, v5)])"
  by (simp add: bt_eval)

text \<open>
  Claim C10, at a failing input.  After the keys 1 to 5 are inserted and the keys 3, 4
  and 5 are removed, the second leaf is empty and is still the first leaf's \<open>next\<close>.
  \<open>range_scan(1, 2, visit)\<close> then evaluates \<open>next->keys.front()\<close> on the empty
  vector: the scan ends in undefined behaviour instead of returning.
\<close>

theorem range_scan_front_of_empty_next_leaf:
  "\<exists>t. BPlusTree_run [BtInsert (1::int) v1, BtInsert 2 v2, BtInsert 3 v3, BtInsert 4 v4,
          BtInsert 5 v5, BtRemove 3, BtRemove 4, BtRemove 5] BPlusTree_new = Inr t \<and>
       root t = InternalNode [3] [LeafNode 0 [1, 2] [v1, v2] (Some 1), LeafNode 1 [] [] None] \<and>
       BPlusTree_range_scan (Suc fuel) 1 2 t = Some (Inl OutOfBounds)"
  by (simp add: bt_eval)

section \<open>Rollback and snapshots\<close>

lemmas tx_eval = users_db_def TransactionManager_new_def Database_begin_transaction_def
  begin_transaction_def Transaction_new_def Database_insert_def Table_insert_def
  get_transaction_def add_table_state_def Database_abort_transaction_def abort_transaction_def
  set_state_def Let_def

text \<open>
  Claim C1, at a failing input.  The table \<open>users\<close> holds one row.  A transaction is
  begun (it gets the identifier 1) and a second row is inserted under it, which captures
  the one-row snapshot of \<open>users\<close>.  \<open>abort_transaction(1)\<close> then succeeds and removes
  the transaction record, but the table still holds both rows: the snapshot is dropped
  with the record and never written back.
\<close>

theorem abort_does_not_restore_rows:
  "\<exists>db1 db2 db3 t.
     Database_begin_transaction users_db = (1, db1) \<and>
     Database_insert (\<lambda>c v. True) (\<lambda>i. 0) (\<lambda>i v p. i) ''users'' [2, 20] 1 db1 = Inr db2 \<and>
     transactions (manager db2) 1 = Some t \<and> tx_state t = ACTIVE \<and>
     table_states t ''users'' = Some [[1, 10]] \<and>
     Database_abort_transaction 1 db2 = Inr db3 \<and>
     transactions (manager db3) 1 = None \<and>
     map_option trows (tables db3 ''users'') = Some [[1, 10], [2, 20]]"
  by (simp add: tx_eval)

text \<open>
  Claim C4, at a failing input.  In the same setting a second row is inserted under the
  same transaction.  The second capture replaces the stored snapshot of \<open>users\<close>: it
  now holds the row that the transaction's first insert added, not the table's state
  before the transaction's first mutation.
\<close>

theorem second_capture_overwrites_snapshot:
  "\<exists>db1 db2 db3 t2 t3.
     Database_begin_transaction users_db = (1, db1) \<and>
     Database_insert (\<lambda>c v. True) (\<lambda>i. 0) (\<lambda>i v p. i) ''users'' [2, 20] 1 db1 = Inr db2 \<and>
     transactions (manager db2) 1 = Some t2 \<and> table_states t2 ''users'' = Some [[1, 10]] \<and>
     Database_insert (\<lambda>c v. True) (\<lambda>i. 0) (\<lambda>i v p. i) ''users'' [3, 30] 1 db2 = Inr db3 \<and>
     transactions (manager db3) 1 = Some t3 \<and>
     table_states t3 ''users'' = Some [[1, 10], [2, 20]]"
  by (simp add: tx_eval)

section \<open>Evaluating the table engine\<close>

lemmas table_eval = users_cols_def id_is_def Table_new_def insert_row_def insert_row_check_def
  has_index_def int_index_has_def text_index_has_def update_index_def row_matches_def
  evaluate_def select_def lookup_result_def full_scan_def update_def update_row_def
  update_pk_taken_def remove_def BPlusTree_find_def bt_eval

section \<open>Invariant of the table\<close>


lemma first_primary_key_Some:
  "first_primary_key cols = Some pk \<Longrightarrow> pk < length cols \<and> primary_key (cols ! pk)"
proof (induction cols arbitrary: pk)
  case Nil
  then show ?case by simp
next
  case (Cons c cs)
  then show ?case by (auto split: if_splits)
qed

lemma table_ok_new: "table_ok (Table_new nm cols)"
  by (auto simp: table_ok_def Table_new_def rows_wf_def Let_def tree_inv_new
      dest: first_primary_key_Some split: option.splits)

lemma Table_new_fields [simp]:
  "columns (Table_new nm cols) = cols" "rows (Table_new nm cols) = []"
  "primary_key_index (Table_new nm cols) = first_primary_key cols"
  by (simp_all add: Table_new_def Let_def)

lemma int_index_has_ok:
  assumes "table_ok t" "primary_key_index t = Some pk" "col_type (columns t ! pk) = CT_Int"
  shows "int_index_has t v =
      (case v of DBInt k \<Rightarrow> Inr (index_map t v) | _ \<Rightarrow> Inl BadVariantAccess)"
proof -
  from assms obtain ix where "int_index t = Some ix" "tree_inv ix"
    by (auto simp: table_ok_def)
  then show ?thesis
    by (cases v) (simp_all add: int_index_has_def index_map_def BPlusTree_find_map)
qed

lemma text_index_has_ok:
  assumes "table_ok t" "primary_key_index t = Some pk" "col_type (columns t ! pk) = CT_Text"
  shows "text_index_has t v =
      (case v of DBText k \<Rightarrow> Inr (index_map t v) | _ \<Rightarrow> Inl BadVariantAccess)"
proof -
  from assms obtain ix where "text_index t = Some ix" "tree_inv ix"
    by (auto simp: table_ok_def)
  then show ?thesis
    by (cases v) (simp_all add: text_index_has_def index_map_def BPlusTree_find_map)
qed

lemma value_type_Int: "value_type v = CT_Int \<Longrightarrow> \<exists>k. v = DBInt k"
  by (cases v) simp_all

lemma value_type_Text: "value_type v = CT_Text \<Longrightarrow> \<exists>k. v = DBText k"
  by (cases v) simp_all

lemma update_index_ok:
  assumes ok: "table_ok t" and pk: "primary_key_index t = Some pk"
    and ty: "indexed_type (col_type (columns t ! pk)) \<longrightarrow> value_type v = col_type (columns t ! pk)"
  shows "\<exists>t'. update_index v pos t = Inr t' \<and> table_ok t' \<and> rows t' = rows t \<and>
      columns t' = columns t \<and> primary_key_index t' = primary_key_index t \<and>
      index_map t' = (if indexed_type (col_type (columns t ! pk)) then (index_map t)(v \<mapsto> pos)
                      else index_map t)"
proof -
  from ok pk have lt: "pk < length (columns t)" by (simp add: table_ok_def)
  consider (IntPk) "col_type (columns t ! pk) = CT_Int" | (TextPk) "col_type (columns t ! pk) = CT_Text"
    | (Other) "\<not> indexed_type (col_type (columns t ! pk))"
    by (auto simp: indexed_type_def)
  then show ?thesis
  proof cases
    case IntPk
    with ok pk obtain ix where ix: "int_index t = Some ix" "tree_inv ix"
      and tx: "text_index t = None"
      by (auto simp: table_ok_def)
    from IntPk ty obtain k where v: "v = DBInt k" using value_type_Int by (auto simp: indexed_type_def)
    from BPlusTree_insert_map[OF ix(2), of k pos] obtain ix' where
      i: "BPlusTree_insert k pos ix = Inr ix'" and inv: "tree_inv ix'"
      and m: "bt_map ix' = (bt_map ix)(k \<mapsto> pos)" by blast
    have u: "update_index v pos t = Inr (t\<lparr>int_index := Some ix'\<rparr>)"
      using pk lt IntPk ix v i by (simp add: update_index_def)
    have im: "index_map (t\<lparr>int_index := Some ix'\<rparr>) = (index_map t)(v \<mapsto> pos)"
    proof
      fix w show "index_map (t\<lparr>int_index := Some ix'\<rparr>) w = ((index_map t)(v \<mapsto> pos)) w"
        using ix m v by (cases w) (auto simp: index_map_def)
    qed
    show ?thesis using u im ok pk IntPk ix inv tx
      by (auto simp: table_ok_def rows_wf_def indexed_type_def)
  next
    case TextPk
    with ok pk obtain ix where ix: "text_index t = Some ix" "tree_inv ix"
      and tx: "int_index t = None"
      by (auto simp: table_ok_def)
    from TextPk ty obtain k where v: "v = DBText k" using value_type_Text by (auto simp: indexed_type_def)
    from BPlusTree_insert_map[OF ix(2), of k pos] obtain ix' where
      i: "BPlusTree_insert k pos ix = Inr ix'" and inv: "tree_inv ix'"
      and m: "bt_map ix' = (bt_map ix)(k \<mapsto> pos)" by blast
    have u: "update_index v pos t = Inr (t\<lparr>text_index := Some ix'\<rparr>)"
      using pk lt TextPk ix tx v i by (simp add: update_index_def)
    have im: "index_map (t\<lparr>text_index := Some ix'\<rparr>) = (index_map t)(v \<mapsto> pos)"
    proof
      fix w show "index_map (t\<lparr>text_index := Some ix'\<rparr>) w = ((index_map t)(v \<mapsto> pos)) w"
        using ix m v by (cases w) (auto simp: index_map_def)
    qed
    show ?thesis using u im ok pk TextPk ix inv tx
      by (auto simp: table_ok_def rows_wf_def indexed_type_def)
  next
    case Other
    with ok pk have "int_index t = None" "text_index t = None"
      by (auto simp: table_ok_def indexed_type_def split: if_splits)
    with pk lt Other have "update_index v pos t = Inr t"
      by (auto simp: update_index_def indexed_type_def)
    with ok Other show ?thesis by simp
  qed
qed

lemma inv_strong_weak: "inv_strong t pk \<Longrightarrow> inv_weak t pk"
proof -
  assume s: "inv_strong t pk"
  have "distinct (map (\<lambda>row. row ! pk) (rows t))"
  proof (subst distinct_conv_nth, intro allI impI)
    fix i j assume "i < length (map (\<lambda>row. row ! pk) (rows t))"
      "j < length (map (\<lambda>row. row ! pk) (rows t))" "i \<noteq> j"
    with s have "index_map t (rows t ! i ! pk) = Some i" "index_map t (rows t ! j ! pk) = Some j"
      by (simp_all add: inv_strong_def)
    with \<open>i \<noteq> j\<close> have "rows t ! i ! pk \<noteq> rows t ! j ! pk" by auto
    with \<open>i < _\<close> \<open>j < _\<close>
    show "map (\<lambda>row. row ! pk) (rows t) ! i \<noteq> map (\<lambda>row. row ! pk) (rows t) ! j" by simp
  qed
  moreover have "\<forall>row \<in> set (rows t).
        value_type (row ! pk) = col_type (columns t ! pk) \<and> index_map t (row ! pk) \<noteq> None"
    using s by (auto simp: inv_strong_def in_set_conv_nth)
  ultimately show ?thesis by (simp add: inv_weak_def)
qed

lemma table_ok_rows:
  "table_ok t \<Longrightarrow> \<forall>row \<in> set rs. length row = length (columns t) \<Longrightarrow>
   table_ok (t\<lparr>rows := rs\<rparr>)"
  by (simp add: table_ok_def rows_wf_def split: option.splits)

lemma table_ok_row_length: "table_ok t \<Longrightarrow> row \<in> set (rows t) \<Longrightarrow> length row = length (columns t)"
  by (simp add: table_ok_def rows_wf_def)

lemma index_map_rows [simp]: "index_map (t\<lparr>rows := rs\<rparr>) = index_map t"
  by (rule ext) (simp add: index_map_def split: DBValue.splits)

lemma insert_row_checks_nth:
  "insert_row_checks t i cols vals = Inr True \<Longrightarrow> length vals = length cols \<Longrightarrow>
   j < length cols \<Longrightarrow> insert_row_check t (i + j) (cols ! j) (vals ! j) = Inr True"
proof (induction cols arbitrary: i vals j)
  case Nil
  then show ?case by simp
next
  case (Cons col cols)
  then obtain v vs where vals: "vals = v # vs" by (cases vals) auto
  from Cons.prems(1) vals have h: "insert_row_check t i col v = Inr True"
    and r: "insert_row_checks t (Suc i) cols vs = Inr True"
    by (auto split: sum.splits bool.splits)
  show ?case
  proof (cases j)
    case 0
    with h vals show ?thesis by simp
  next
    case (Suc j')
    with Cons.IH[OF r, of j'] Cons.prems vals show ?thesis by simp
  qed
qed

lemma insert_row_check_pk:
  assumes ok: "table_ok t" and pk: "primary_key_index t = Some pk"
    and ity: "indexed_type (col_type (columns t ! pk))"
    and chk: "insert_row_check t pk (columns t ! pk) v = Inr True"
  shows "value_type v = col_type (columns t ! pk) \<and> index_map t v = None"
proof -
  from ok pk have p: "primary_key (columns t ! pk)" by (simp add: table_ok_def)
  from ity consider (IntPk) "col_type (columns t ! pk) = CT_Int"
    | (TextPk) "col_type (columns t ! pk) = CT_Text" by (auto simp: indexed_type_def)
  then show ?thesis
  proof cases
    case IntPk
    from chk p pk IntPk int_index_has_ok[OF ok pk IntPk, of v] show ?thesis
      by (cases v) (auto simp: insert_row_check_def has_index_def split: if_splits option.splits)
  next
    case TextPk
    from chk p pk TextPk text_index_has_ok[OF ok pk TextPk, of v] show ?thesis
      by (cases v) (auto simp: insert_row_check_def has_index_def split: if_splits option.splits)
  qed
qed

text \<open>What a returning \<open>insert_row\<close> does to the table.\<close>

lemma insert_row_result:
  assumes ok: "table_ok t" and ins: "insert_row row t = Inr (b, t')"
  shows "table_ok t' \<and> columns t' = columns t \<and> primary_key_index t' = primary_key_index t \<and>
     (\<not> b \<longrightarrow> t' = t) \<and>
     (b \<longrightarrow> rows t' = rows t @ [row] \<and> length row = length (columns t) \<and>
        (case primary_key_index t of
           None \<Rightarrow> index_map t' = index_map t
         | Some pk \<Rightarrow>
             if indexed_type (col_type (columns t ! pk))
             then value_type (row ! pk) = col_type (columns t ! pk) \<and> index_map t (row ! pk) = None \<and>
                  index_map t' = (index_map t)(row ! pk \<mapsto> length (rows t))
             else index_map t' = index_map t))"
proof (cases b)
  case False
  with ins have "t' = t"
    by (auto simp: insert_row_def Let_def split: if_splits sum.splits bool.splits option.splits)
  with ok False show ?thesis by simp
next
  case True
  with ins have len: "length row = length (columns t)"
    and chk: "insert_row_checks t 0 (columns t) row = Inr True"
    by (auto simp: insert_row_def Let_def split: if_splits sum.splits bool.splits option.splits)
  let ?t1 = "t\<lparr>rows := rows t @ [row]\<rparr>"
  have ok1: "table_ok ?t1" using ok len table_ok_row_length[OF ok]
    by (intro table_ok_rows) auto
  have im1: "index_map ?t1 = index_map t" by simp
  show ?thesis
  proof (cases "primary_key_index t")
    case None
    with ins True len chk have "t' = ?t1" by (simp add: insert_row_def Let_def)
    with ok1 im1 True None len show ?thesis by simp
  next
    case (Some pk)
    with ok have lt: "pk < length (columns t)" by (simp add: table_ok_def)
    from Some ins True len chk lt have u: "update_index (row ! pk) (length (rows t)) ?t1 = Inr t'"
      by (auto simp: insert_row_def Let_def split: sum.splits)
    have pk1: "primary_key_index ?t1 = Some pk" using Some by simp
    from insert_row_checks_nth[OF chk len lt]
    have c: "insert_row_check t pk (columns t ! pk) (row ! pk) = Inr True" by simp
    have ty: "indexed_type (col_type (columns t ! pk)) \<longrightarrow>
        value_type (row ! pk) = col_type (columns t ! pk) \<and> index_map t (row ! pk) = None"
      using insert_row_check_pk[OF ok Some _ c] by blast
    from update_index_ok[OF ok1 pk1, of "row ! pk" "length (rows t)"] ty u
    have "table_ok t' \<and> rows t' = rows ?t1 \<and> columns t' = columns ?t1 \<and>
      primary_key_index t' = primary_key_index ?t1 \<and>
      index_map t' = (if indexed_type (col_type (columns ?t1 ! pk))
                      then (index_map ?t1)(row ! pk \<mapsto> length (rows t)) else index_map ?t1)"
      by auto
    with im1 ty True Some len show ?thesis by simp
  qed
qed

lemma column_index_less: "column_index cols nm = Some i \<Longrightarrow> i < length cols"
proof (induction cols arbitrary: i)
  case Nil
  then show ?case by simp
next
  case (Cons c cs)
  then show ?case by (auto split: if_splits)
qed

lemma map_assign_keys: "fst ` set (map_assign k v m) = insert k (fst ` set m)"
proof (induction m)
  case Nil
  then show ?case by simp
next
  case (Cons e m)
  obtain k' v' where e: "e = (k', v')" by (cases e)
  show ?case
  proof (cases "k' = k")
    case True
    with e show ?thesis by simp
  next
    case False
    with e Cons show ?thesis by (simp add: insert_commute)
  qed
qed

lemma map_assign_distinct: "distinct (map fst m) \<Longrightarrow> distinct (map fst (map_assign k v m))"
proof (induction m)
  case Nil
  then show ?case by simp
next
  case (Cons e m)
  obtain k' v' where e: "e = (k', v')" by (cases e)
  from Cons e show ?case using map_assign_keys[of k v m] by (auto simp: image_iff)
qed

lemma resolve_updates_wf:
  "assignments_wf cols m \<Longrightarrow> assignments_wf cols (resolve_updates cols us m)"
proof (induction us arbitrary: m)
  case Nil
  then show ?case by simp
next
  case (Cons u us)
  obtain nm v where u: "u = (nm, v)" by (cases u)
  show ?case
  proof (cases "column_index cols nm")
    case None
    with Cons u show ?thesis by simp
  next
    case (Some idx)
    have "assignments_wf cols (map_assign idx v m)"
      using Cons.prems column_index_less[OF Some] map_assign_keys[of idx v m]
      by (auto simp: assignments_wf_def map_assign_distinct)
    from Cons.IH[OF this] Some u show ?thesis by simp
  qed
qed

lemma assignments_wf_Nil: "assignments_wf cols []"
  by (simp add: assignments_wf_def)

lemma assign_fields_assigned:
  "assignments_wf cols m \<Longrightarrow> length row = length cols \<Longrightarrow>
   \<exists>row'. assign_fields cols m row = Inr row' \<and> length row' = length row \<and>
     (\<forall>c < length row. row' ! c = assigned_field cols m row c)"
proof (induction m arbitrary: row)
  case Nil
  then show ?case by (simp add: assigned_field_def)
next
  case (Cons e m)
  obtain c0 v0 where e: "e = (c0, v0)" by (cases e)
  from Cons.prems e have wf: "assignments_wf cols m" and c0: "c0 < length cols"
    and fresh: "map_of m c0 = None"
    by (auto simp: assignments_wf_def map_of_eq_None_iff)
  show ?case
  proof (cases "v0 \<noteq> DBNull \<and> value_type v0 \<noteq> col_type (cols ! c0)")
    case True
    from Cons.IH[OF wf Cons.prems(2)] obtain row' where
      r: "assign_fields cols m row = Inr row'" "length row' = length row"
      "\<forall>c < length row. row' ! c = assigned_field cols m row c" by blast
    have "assigned_field cols ((c0, v0) # m) row c = assigned_field cols m row c" for c
      using True fresh by (simp add: assigned_field_def)
    with r e c0 True show ?thesis by simp
  next
    case False
    let ?row = "row[c0 := v0]"
    have len: "length ?row = length cols" using Cons.prems(2) by simp
    from Cons.IH[OF wf len] obtain row' where
      r: "assign_fields cols m ?row = Inr row'" "length row' = length ?row"
      "\<forall>c < length ?row. row' ! c = assigned_field cols m ?row c" by blast
    have "assigned_field cols ((c0, v0) # m) row c = assigned_field cols m ?row c"
      if "c < length row" for c
      using False fresh that by (cases "c = c0") (auto simp: assigned_field_def split: option.splits)
    moreover have "assign_fields cols ((c0, v0) # m) row = assign_fields cols m ?row"
      using False c0 Cons.prems(2) by auto
    ultimately show ?thesis using r e Cons.prems(2) by simp
  qed
qed

lemma assign_fields_row:
  assumes "assignments_wf cols m" "length row = length cols"
  shows "assign_fields cols m row = Inr (assigned_row cols m row)"
proof -
  from assign_fields_assigned[OF assms] obtain row' where
    r: "assign_fields cols m row = Inr row'" "length row' = length row"
    "\<forall>c < length row. row' ! c = assigned_field cols m row c" by blast
  have "row' = assigned_row cols m row"
    using r(2,3) by (intro nth_equalityI) (simp_all add: assigned_row_def)
  with r(1) show ?thesis by simp
qed

lemma length_assigned_row [simp]: "length (assigned_row cols m row) = length row"
  by (simp add: assigned_row_def)

lemma assigned_row_nth: "c < length row \<Longrightarrow> assigned_row cols m row ! c = assigned_field cols m row c"
  by (simp add: assigned_row_def)

lemma update_pk_taken_ok:
  assumes ok: "table_ok t" and pk: "primary_key_index t = Some pk"
    and ty: "indexed_type (col_type (columns t ! pk)) \<longrightarrow> value_type v = col_type (columns t ! pk)"
  shows "update_pk_taken t pk i v = Inr (case index_map t v of None \<Rightarrow> False | Some j \<Rightarrow> j \<noteq> i)"
proof -
  from ok pk have lt: "pk < length (columns t)" by (simp add: table_ok_def)
  consider (IntPk) "col_type (columns t ! pk) = CT_Int" | (TextPk) "col_type (columns t ! pk) = CT_Text"
    | (Other) "\<not> indexed_type (col_type (columns t ! pk))"
    by (auto simp: indexed_type_def)
  then show ?thesis
  proof cases
    case IntPk
    with ty obtain k where v: "v = DBInt k" using value_type_Int by (auto simp: indexed_type_def)
    with int_index_has_ok[OF ok pk IntPk, of v] lt IntPk show ?thesis
      by (simp add: update_pk_taken_def split: option.splits)
  next
    case TextPk
    with ty obtain k where v: "v = DBText k" using value_type_Text by (auto simp: indexed_type_def)
    with text_index_has_ok[OF ok pk TextPk, of v] lt TextPk show ?thesis
      by (simp add: update_pk_taken_def split: option.splits)
  next
    case Other
    with ok pk have "int_index t = None" "text_index t = None"
      by (auto simp: table_ok_def indexed_type_def split: if_splits)
    then have "index_map t v = None" by (simp add: index_map_def split: DBValue.splits)
    with Other lt show ?thesis by (auto simp: update_pk_taken_def indexed_type_def)
  qed
qed

lemma update_row_spec:
  assumes ok: "table_ok t" and wf: "assignments_wf (columns t) m" and i: "i < length (rows t)"
    and ty: "pk_value_typed t m"
  shows "\<exists>t'. table_ok t' \<and> columns t' = columns t \<and> primary_key_index t' = primary_key_index t \<and>
      rows t' = (rows t)[i := assigned_row (columns t) m (rows t ! i)] \<and>
      index_map t' = index_after_update t m i \<and>
      update_row feq flt m conds i t =
        (if row_matches feq flt t (rows t ! i) conds \<and> \<not> pk_taken t m i then Inr (True, t')
         else Inr (False, t))"
proof -
  let ?row = "rows t ! i"
  let ?row' = "assigned_row (columns t) m ?row"
  let ?t1 = "t\<lparr>rows := (rows t)[i := ?row']\<rparr>"
  have len: "length ?row = length (columns t)"
    using table_ok_row_length[OF ok] i by simp
  have af: "assign_fields (columns t) m ?row = Inr ?row'"
    by (rule assign_fields_row[OF wf len])
  have ok1: "table_ok ?t1"
  proof (rule table_ok_rows[OF ok], intro ballI)
    fix r assume "r \<in> set ((rows t)[i := ?row'])"
    then have "r = ?row' \<or> r \<in> set (rows t)" using set_update_subset_insert by fastforce
    then show "length r = length (columns t)" using len table_ok_row_length[OF ok] by auto
  qed
  show ?thesis
  proof (cases "primary_key_index t")
    case None
    then have "update_row feq flt m conds i t =
        (if row_matches feq flt t ?row conds \<and> \<not> pk_taken t m i then Inr (True, ?t1)
         else Inr (False, t))"
      using i af by (simp add: update_row_def pk_taken_def)
    with ok1 None show ?thesis
      by (intro exI[of _ ?t1]) (simp add: index_after_update_def)
  next
    case (Some pk)
    with ok have lt: "pk < length (columns t)" by (simp add: table_ok_def)
    show ?thesis
    proof (cases "map_of m pk")
      case None
      then have "update_row feq flt m conds i t =
          (if row_matches feq flt t ?row conds \<and> \<not> pk_taken t m i then Inr (True, ?t1)
           else Inr (False, t))"
        using i af Some by (simp add: update_row_def pk_taken_def)
      with ok1 None Some show ?thesis
        by (intro exI[of _ ?t1]) (simp add: index_after_update_def)
    next
      case (Some v)
      note mv = this
      from ty \<open>primary_key_index t = Some pk\<close> mv
      have tyv: "indexed_type (col_type (columns t ! pk)) \<longrightarrow> value_type v = col_type (columns t ! pk)"
        by (simp add: pk_value_typed_def)
      have taken: "update_pk_taken t pk i v = Inr (pk_taken t m i)"
        using update_pk_taken_ok[OF ok \<open>primary_key_index t = Some pk\<close> tyv, of i] mv
          \<open>primary_key_index t = Some pk\<close>
        by (simp add: pk_taken_def)
      have rpk: "?row' ! pk = assigned_field (columns t) m ?row pk"
        using lt len by (simp add: assigned_row_nth)
      have tyr: "indexed_type (col_type (columns ?t1 ! pk)) \<longrightarrow>
          value_type (?row' ! pk) = col_type (columns ?t1 ! pk)"
        using tyv mv rpk by (auto simp: assigned_field_def indexed_type_def)
      have pk1: "primary_key_index ?t1 = Some pk" using \<open>primary_key_index t = Some pk\<close> by simp
      from update_index_ok[OF ok1 pk1 tyr, of i] obtain t' where
        u: "update_index (?row' ! pk) i ?t1 = Inr t'" and ok': "table_ok t'"
        and r': "rows t' = rows ?t1" and c': "columns t' = columns ?t1"
        and p': "primary_key_index t' = primary_key_index ?t1"
        and im: "index_map t' = (if indexed_type (col_type (columns ?t1 ! pk))
                      then (index_map ?t1)(?row' ! pk \<mapsto> i) else index_map ?t1)"
        by blast
      have rv: "indexed_type (col_type (columns t ! pk)) \<Longrightarrow> ?row' ! pk = v"
        using tyv mv rpk by (auto simp: assigned_field_def indexed_type_def)
      have im': "index_map t' = index_after_update t m i"
        using im rv mv \<open>primary_key_index t = Some pk\<close> by (simp add: index_after_update_def)
      have "update_row feq flt m conds i t =
          (if row_matches feq flt t ?row conds \<and> \<not> pk_taken t m i then Inr (True, t')
           else Inr (False, t))"
        using i af \<open>primary_key_index t = Some pk\<close> mv taken u lt len
        by (simp add: update_row_def)
      with ok' r' c' p' im' show ?thesis by (intro exI[of _ t']) simp
    qed
  qed
qed

lemma update_row_mistyped:
  assumes ok: "table_ok t" and i: "i < length (rows t)"
    and mt: "row_matches feq flt t (rows t ! i) conds"
    and nty: "\<not> pk_value_typed t m"
  shows "update_row feq flt m conds i t = Inl BadVariantAccess"
proof -
  from nty obtain pk v where pk: "primary_key_index t = Some pk" and mv: "map_of m pk = Some v"
    and ity: "indexed_type (col_type (columns t ! pk))"
    and bad: "value_type v \<noteq> col_type (columns t ! pk)"
    by (auto simp: pk_value_typed_def split: option.splits)
  from ok pk have lt: "pk < length (columns t)" by (simp add: table_ok_def)
  from ity consider (IntPk) "col_type (columns t ! pk) = CT_Int"
    | (TextPk) "col_type (columns t ! pk) = CT_Text" by (auto simp: indexed_type_def)
  then have "update_pk_taken t pk i v = Inl BadVariantAccess"
  proof cases
    case IntPk
    with bad int_index_has_ok[OF ok pk IntPk, of v] lt show ?thesis
      by (cases v) (simp_all add: update_pk_taken_def)
  next
    case TextPk
    with bad text_index_has_ok[OF ok pk TextPk, of v] lt show ?thesis
      by (cases v) (simp_all add: update_pk_taken_def)
  qed
  with i mt pk mv show ?thesis by (simp add: update_row_def)
qed

lemma update_row_unmatched:
  "i < length (rows t) \<Longrightarrow> \<not> row_matches feq flt t (rows t ! i) conds \<Longrightarrow>
   update_row feq flt m conds i t = Inr (False, t)"
  by (simp add: update_row_def)

lemma map_nth_update_same:
  assumes "f y = f (xs ! i)"
  shows "map f (xs[i := y]) = map f xs"
proof (cases "i < length xs")
  case True
  show ?thesis
  proof (rule nth_equalityI)
    show "length (map f (xs[i := y])) = length (map f xs)" by simp
    fix j assume "j < length (map f (xs[i := y]))"
    with True assms show "map f (xs[i := y]) ! j = map f xs ! j"
      by (cases "j = i") simp_all
  qed
next
  case False
  then have "length xs \<le> i" by arith
  then have "xs[i := y] = xs" by (rule list_update_beyond)
  then show ?thesis by (rule arg_cong)
qed

lemma update_row_inv:
  assumes ok: "table_ok t" and wf: "assignments_wf (columns t) m" and i: "i < length (rows t)"
    and ur: "update_row feq flt m conds i t = Inr (b, t')"
  shows "table_ok t' \<and> columns t' = columns t \<and> primary_key_index t' = primary_key_index t \<and>
     length (rows t') = length (rows t) \<and>
     (\<forall>pk. primary_key_index t = Some pk \<longrightarrow>
        (inv_strong t pk \<longrightarrow> inv_strong t' pk) \<and>
        (map_of m pk = None \<longrightarrow> inv_weak t pk \<longrightarrow> inv_weak t' pk))"
proof (cases "row_matches feq flt t (rows t ! i) conds")
  case False
  with update_row_unmatched[OF i False, of m] ur ok show ?thesis by simp
next
  case True
  have ty: "pk_value_typed t m"
    using update_row_mistyped[OF ok i True, of m] ur by auto
  from update_row_spec[OF ok wf i ty, of feq flt conds] obtain t2 where
    ok2: "table_ok t2" and c2: "columns t2 = columns t"
    and p2: "primary_key_index t2 = primary_key_index t"
    and r2: "rows t2 = (rows t)[i := assigned_row (columns t) m (rows t ! i)]"
    and im2: "index_map t2 = index_after_update t m i"
    and res: "update_row feq flt m conds i t =
        (if row_matches feq flt t (rows t ! i) conds \<and> \<not> pk_taken t m i then Inr (True, t2)
         else Inr (False, t))" by blast
  show ?thesis
  proof (cases "pk_taken t m i")
    case True
    with res ur ok show ?thesis by simp
  next
    case False
    with res ur \<open>row_matches feq flt t (rows t ! i) conds\<close> have t': "t' = t2" by simp
    let ?arow = "assigned_row (columns t) m (rows t ! i)"
    have len: "length (rows t ! i) = length (columns t)"
      using table_ok_row_length[OF ok] i by simp
    have inv: "(inv_strong t pk \<longrightarrow> inv_strong t2 pk) \<and>
        (map_of m pk = None \<longrightarrow> inv_weak t pk \<longrightarrow> inv_weak t2 pk)"
      if pk: "primary_key_index t = Some pk" for pk
    proof -
      from ok pk have lt: "pk < length (columns t)" by (simp add: table_ok_def)
      have apk: "?arow ! pk = assigned_field (columns t) m (rows t ! i) pk"
        using lt len by (simp add: assigned_row_nth)
      show ?thesis
      proof (cases "map_of m pk")
        case None
        then have same: "?arow ! pk = rows t ! i ! pk" using apk by (simp add: assigned_field_def)
        have im: "index_map t2 = index_map t" using im2 pk None by (simp add: index_after_update_def)
        have col: "map (\<lambda>row. row ! pk) (rows t2) = map (\<lambda>row. row ! pk) (rows t)"
          using r2 same by (simp add: map_nth_update_same)
        have s: "inv_strong t2 pk" if "inv_strong t pk"
          unfolding inv_strong_def
        proof (intro allI impI)
          fix j assume "j < length (rows t2)"
          then have j: "j < length (rows t)" using r2 by simp
          have "rows t2 ! j ! pk = rows t ! j ! pk"
            using col j by (metis length_map nth_map r2 length_list_update)
          with that j im c2 show "value_type (rows t2 ! j ! pk) = col_type (columns t2 ! pk) \<and>
              index_map t2 (rows t2 ! j ! pk) = Some j"
            by (simp add: inv_strong_def)
        qed
        have w: "inv_weak t2 pk" if "inv_weak t pk"
        proof -
          have "\<forall>row \<in> set (rows t2). \<exists>row0 \<in> set (rows t). row ! pk = row0 ! pk"
          proof
            fix row assume "row \<in> set (rows t2)"
            then have "row ! pk \<in> set (map (\<lambda>row. row ! pk) (rows t2))" by simp
            then have "row ! pk \<in> set (map (\<lambda>row. row ! pk) (rows t))" using col by simp
            then show "\<exists>row0 \<in> set (rows t). row ! pk = row0 ! pk" by auto
          qed
          with that col im c2 show ?thesis by (fastforce simp: inv_weak_def)
        qed
        from s w None show ?thesis by simp
      next
        case (Some v)
        have s: "inv_strong t2 pk" if st: "inv_strong t pk"
        proof (cases "indexed_type (col_type (columns t ! pk))")
          case True
          with ty pk Some have tv: "value_type v = col_type (columns t ! pk)"
            by (simp add: pk_value_typed_def)
          then have av: "?arow ! pk = v" using apk Some True
            by (auto simp: assigned_field_def indexed_type_def)
          have im: "index_map t2 = (index_map t)(v \<mapsto> i)"
            using im2 pk Some True by (simp add: index_after_update_def)
          from False pk Some have nt: "index_map t v = None \<or> index_map t v = Some i"
            by (auto simp: pk_taken_def split: option.splits)
          show ?thesis
            unfolding inv_strong_def
          proof (intro allI impI)
            fix j assume "j < length (rows t2)"
            then have j: "j < length (rows t)" using r2 by simp
            show "value_type (rows t2 ! j ! pk) = col_type (columns t2 ! pk) \<and>
                index_map t2 (rows t2 ! j ! pk) = Some j"
            proof (cases "j = i")
              case True
              with r2 j av tv c2 im show ?thesis by simp
            next
              case False
              from st j have sj: "value_type (rows t ! j ! pk) = col_type (columns t ! pk)"
                "index_map t (rows t ! j ! pk) = Some j" by (simp_all add: inv_strong_def)
              with nt False have "rows t ! j ! pk \<noteq> v" by auto
              with sj False r2 c2 im show ?thesis by simp
            qed
          qed
        next
          case False
          with ok pk have "int_index t = None" "text_index t = None"
            by (auto simp: table_ok_def indexed_type_def split: if_splits)
          then have "index_map t w = None" for w
            by (simp add: index_map_def split: DBValue.splits)
          with st i show ?thesis by (auto simp: inv_strong_def)
        qed
        with Some show ?thesis by simp
      qed
    qed
    from ok2 c2 p2 r2 t' inv show ?thesis by simp
  qed
qed

lemma update_rows_inv:
  "table_ok t \<Longrightarrow> assignments_wf (columns t) m \<Longrightarrow> \<forall>i \<in> set is. i < length (rows t) \<Longrightarrow>
   update_rows feq flt m conds is count t = Inr (count', t') \<Longrightarrow>
   table_ok t' \<and> columns t' = columns t \<and> primary_key_index t' = primary_key_index t \<and>
   length (rows t') = length (rows t) \<and>
   (\<forall>pk. primary_key_index t = Some pk \<longrightarrow>
      (inv_strong t pk \<longrightarrow> inv_strong t' pk) \<and>
      (map_of m pk = None \<longrightarrow> inv_weak t pk \<longrightarrow> inv_weak t' pk))"
proof (induction "is" arbitrary: t count)
  case Nil
  then show ?case by simp
next
  case (Cons i "is")
  from Cons.prems(4) obtain b t1 where
    u: "update_row feq flt m conds i t = Inr (b, t1)"
    and r: "update_rows feq flt m conds is (if b then Suc count else count) t1 = Inr (count', t')"
    by (auto split: sum.splits)
  from Cons.prems(3) have i: "i < length (rows t)" by simp
  note s1 = update_row_inv[OF Cons.prems(1,2) i u]
  from s1 have ok1: "table_ok t1" and c1: "columns t1 = columns t"
    and p1: "primary_key_index t1 = primary_key_index t"
    and l1: "length (rows t1) = length (rows t)" by simp_all
  have wf1: "assignments_wf (columns t1) m" using Cons.prems(2) c1 by simp
  have is1: "\<forall>i \<in> set is. i < length (rows t1)" using Cons.prems(3) l1 by simp
  note s2 = Cons.IH[OF ok1 wf1 is1 r]
  from s1 s2 c1 p1 l1 show ?case by simp
qed

lemma update_inv:
  assumes "table_ok t" "update feq flt updates conds t = Inr (n, t')"
  shows "table_ok t' \<and> columns t' = columns t \<and> primary_key_index t' = primary_key_index t \<and>
   length (rows t') = length (rows t) \<and>
   (\<forall>pk. primary_key_index t = Some pk \<longrightarrow>
      (inv_strong t pk \<longrightarrow> inv_strong t' pk) \<and>
      (map_of (resolve_updates (columns t) updates []) pk = None \<longrightarrow>
         inv_weak t pk \<longrightarrow> inv_weak t' pk))"
proof -
  have wf: "assignments_wf (columns t) (resolve_updates (columns t) updates [])"
    by (rule resolve_updates_wf[OF assignments_wf_Nil])
  have "\<forall>i \<in> set [0 ..< length (rows t)]. i < length (rows t)" by simp
  from update_rows_inv[OF assms(1) wf this] assms(2) show ?thesis
    unfolding update_def by blast
qed

lemma remove_inv:
  assumes "table_ok t"
  shows "table_ok (snd (remove feq flt conds t)) \<and>
     columns (snd (remove feq flt conds t)) = columns t \<and>
     primary_key_index (snd (remove feq flt conds t)) = primary_key_index t \<and>
     index_map (snd (remove feq flt conds t)) = index_map t \<and>
     rows (snd (remove feq flt conds t))
       = filter (\<lambda>row. \<not> row_matches feq flt t row conds) (rows t) \<and>
     (inv_weak t pk \<longrightarrow> inv_weak (snd (remove feq flt conds t)) pk)"
proof -
  let ?rs = "filter (\<lambda>row. \<not> row_matches feq flt t row conds) (rows t)"
  have eq: "snd (remove feq flt conds t) = t\<lparr>rows := ?rs\<rparr>"
    by (simp add: remove_def Let_def)
  have ok': "table_ok (t\<lparr>rows := ?rs\<rparr>)"
    using table_ok_row_length[OF assms] by (intro table_ok_rows[OF assms]) auto
  have "inv_weak (t\<lparr>rows := ?rs\<rparr>) pk" if "inv_weak t pk"
    using that by (auto simp: inv_weak_def distinct_map_filter)
  with ok' eq show ?thesis by simp
qed

lemma insert_row_inv:
  assumes ok: "table_ok t" and pk: "primary_key_index t = Some pk"
    and ity: "indexed_type (col_type (columns t ! pk))"
    and ins: "insert_row row t = Inr (b, t')"
  shows "(inv_strong t pk \<longrightarrow> inv_strong t' pk) \<and> (inv_weak t pk \<longrightarrow> inv_weak t' pk)"
proof (cases b)
  case False
  with insert_row_result[OF ok ins] show ?thesis by simp
next
  case True
  with insert_row_result[OF ok ins] pk ity have
    c: "columns t' = columns t" and r: "rows t' = rows t @ [row]"
    and ty: "value_type (row ! pk) = col_type (columns t ! pk)"
    and fresh: "index_map t (row ! pk) = None"
    and im: "index_map t' = (index_map t)(row ! pk \<mapsto> length (rows t))"
    by simp_all
  have s: "inv_strong t' pk" if st: "inv_strong t pk"
    unfolding inv_strong_def
  proof (intro allI impI)
    fix j assume "j < length (rows t')"
    then consider (old) "j < length (rows t)" | (new) "j = length (rows t)" using r by fastforce
    then show "value_type (rows t' ! j ! pk) = col_type (columns t' ! pk) \<and>
        index_map t' (rows t' ! j ! pk) = Some j"
    proof cases
      case old
      with st have sj: "value_type (rows t ! j ! pk) = col_type (columns t ! pk)"
        "index_map t (rows t ! j ! pk) = Some j" by (simp_all add: inv_strong_def)
      with fresh have "rows t ! j ! pk \<noteq> row ! pk" by auto
      with sj old r c im show ?thesis by (simp add: nth_append)
    next
      case new
      with r c im ty show ?thesis by simp
    qed
  qed
  have w: "inv_weak t' pk" if wk: "inv_weak t pk"
  proof -
    have "row ! pk \<notin> (\<lambda>row. row ! pk) ` set (rows t)"
      using wk fresh by (auto simp: inv_weak_def)
    with wk r c im ty show ?thesis by (auto simp: inv_weak_def)
  qed
  from s w show ?thesis by simp
qed

lemma Table_run_inv:
  "table_ok t \<Longrightarrow> primary_key_index t = Some pk \<Longrightarrow> indexed_type (col_type (columns t ! pk)) \<Longrightarrow>
   pk_safe pk (columns t) removed ops \<Longrightarrow>
   (if removed then inv_weak t pk else inv_strong t pk) \<Longrightarrow>
   Table_run feq flt ops t = Inr t' \<Longrightarrow>
   table_ok t' \<and> columns t' = columns t \<and> primary_key_index t' = Some pk \<and> inv_weak t' pk \<and>
   (\<not> removed \<and> (\<forall>op \<in> set ops. \<not> is_remove op) \<longrightarrow> inv_strong t' pk)"
proof (induction ops arbitrary: t removed)
  case Nil
  then show ?case by (auto simp: inv_strong_weak split: if_splits)
next
  case (Cons op ops)
  from Cons.prems(6) obtain t1 where a: "Table_apply feq flt op t = Inr t1"
    and r: "Table_run feq flt ops t1 = Inr t'" by (auto split: sum.splits)
  show ?case
  proof (cases op)
    case (InsertRow row)
    with a obtain b where ins: "insert_row row t = Inr (b, t1)" by (auto split: sum.splits)
    note res = insert_row_result[OF Cons.prems(1) ins]
    note inv = insert_row_inv[OF Cons.prems(1,2,3) ins]
    have "table_ok t1" "primary_key_index t1 = Some pk"
      "indexed_type (col_type (columns t1 ! pk))" "pk_safe pk (columns t1) removed ops"
      "if removed then inv_weak t1 pk else inv_strong t1 pk"
      using res inv Cons.prems InsertRow by (auto split: if_splits)
    from Cons.IH[OF this r] res InsertRow show ?thesis by simp
  next
    case (Update updates conds)
    with a obtain n where u: "update feq flt updates conds t = Inr (n, t1)"
      by (auto split: sum.splits)
    note inv = update_inv[OF Cons.prems(1) u]
    have "table_ok t1" "primary_key_index t1 = Some pk"
      "indexed_type (col_type (columns t1 ! pk))" "pk_safe pk (columns t1) removed ops"
      "if removed then inv_weak t1 pk else inv_strong t1 pk"
      using inv Cons.prems Update by (auto split: if_splits)
    from Cons.IH[OF this r] inv Update show ?thesis by simp
  next
    case (Remove conds)
    with a have t1: "t1 = snd (remove feq flt conds t)" by simp
    note inv = remove_inv[OF Cons.prems(1), of feq flt conds pk]
    have w: "inv_weak t pk" using Cons.prems(5) by (auto simp: inv_strong_weak split: if_splits)
    have "table_ok t1" "primary_key_index t1 = Some pk"
      "indexed_type (col_type (columns t1 ! pk))" "pk_safe pk (columns t1) True ops"
      "if True then inv_weak t1 pk else inv_strong t1 pk"
      using inv w t1 Cons.prems Remove by auto
    from Cons.IH[OF this r] inv t1 Remove show ?thesis by simp
  qed
qed

lemma inv_strong_new: "inv_strong (Table_new nm cols) pk"
  by (simp add: inv_strong_def)


lemma row_matches_columns:
  "columns t' = columns t \<Longrightarrow> row_matches feq flt t' row conds = row_matches feq flt t row conds"
  by (simp add: row_matches_def)

lemma Table_run_ok:
  "table_ok t \<Longrightarrow> Table_run feq flt ops t = Inr t' \<Longrightarrow> table_ok t' \<and> columns t' = columns t"
proof (induction ops arbitrary: t)
  case Nil
  then show ?case by simp
next
  case (Cons op ops)
  from Cons.prems(2) obtain t1 where a: "Table_apply feq flt op t = Inr t1"
    and r: "Table_run feq flt ops t1 = Inr t'" by (auto split: sum.splits)
  have "table_ok t1 \<and> columns t1 = columns t"
  proof (cases op)
    case (InsertRow row)
    with a obtain b where "insert_row row t = Inr (b, t1)" by (auto split: sum.splits)
    from insert_row_result[OF Cons.prems(1) this] show ?thesis by simp
  next
    case (Update updates conds)
    with a obtain n where "update feq flt updates conds t = Inr (n, t1)"
      by (auto split: sum.splits)
    from update_inv[OF Cons.prems(1) this] show ?thesis by simp
  next
    case (Remove conds)
    with a remove_inv[OF Cons.prems(1), of feq flt conds 0] show ?thesis by simp
  qed
  with Cons.IH[OF _ r] show ?case by simp
qed






text \<open>The row loop of \<open>update\<close>, started at position \<open>a\<close>.\<close>

lemma row_skipped_from: "row_skipped feq flt t m conds i = skipped_from feq flt t m conds 0 i"
  by (simp add: row_skipped_def skipped_from_def)

lemma skipped_from_self: "skipped_from feq flt t m conds a a = pk_taken t m a"
  by (simp add: skipped_from_def pk_taken_def split: option.splits)

lemma skipped_from_step:
  assumes c: "columns s' = columns s" and p: "primary_key_index s' = primary_key_index s"
    and r: "\<forall>j. a < j \<and> j < i \<longrightarrow> rows s' ! j = rows s ! j"
    and im: "index_map s' = (if row_matches feq flt s (rows s ! a) conds \<and> \<not> pk_taken s m a
                             then index_after_update s m a else index_map s)"
    and ai: "a < i"
  shows "skipped_from feq flt s' m conds (Suc a) i = skipped_from feq flt s m conds a i"
proof (cases "primary_key_index s")
  case None
  with p show ?thesis by (simp add: skipped_from_def)
next
  case (Some pk)
  note pk = this
  show ?thesis
  proof (cases "map_of m pk")
    case None
    with p pk show ?thesis by (simp add: skipped_from_def)
  next
    case (Some v)
    note mv = this
    have rm: "row_matches feq flt s' row conds = row_matches feq flt s row conds" for row
      by (rule row_matches_columns[OF c])
    have later: "(\<exists>j \<in> set [Suc a ..< i]. row_matches feq flt s' (rows s' ! j) conds)
        = (\<exists>j \<in> set [Suc a ..< i]. row_matches feq flt s (rows s ! j) conds)"
      using r by (auto simp: rm)
    have split: "(\<exists>j \<in> set [a ..< i]. row_matches feq flt s (rows s ! j) conds)
        = (row_matches feq flt s (rows s ! a) conds \<or>
           (\<exists>j \<in> set [Suc a ..< i]. row_matches feq flt s (rows s ! j) conds))"
      using ai by (auto simp: upt_conv_Cons) 
    have tk: "pk_taken s m a = (case index_map s v of None \<Rightarrow> False | Some j \<Rightarrow> j \<noteq> a)"
      using pk mv by (simp add: pk_taken_def)
    have iau: "index_after_update s m a =
        (if indexed_type (col_type (columns s ! pk)) then (index_map s)(v \<mapsto> a) else index_map s)"
      using pk mv by (simp add: index_after_update_def)
    have lhs: "skipped_from feq flt s' m conds (Suc a) i =
        (case index_map s' v of
           Some q \<Rightarrow> q \<noteq> i
         | None \<Rightarrow> indexed_type (col_type (columns s ! pk)) \<and>
                    (\<exists>j \<in> set [Suc a ..< i]. row_matches feq flt s (rows s ! j) conds))"
      using p pk mv c later by (simp add: skipped_from_def split: option.splits)
    have rhs: "skipped_from feq flt s m conds a i =
        (case index_map s v of
           Some q \<Rightarrow> q \<noteq> i
         | None \<Rightarrow> indexed_type (col_type (columns s ! pk)) \<and>
                    (row_matches feq flt s (rows s ! a) conds \<or>
                     (\<exists>j \<in> set [Suc a ..< i]. row_matches feq flt s (rows s ! j) conds)))"
      using pk mv split by (simp add: skipped_from_def split: option.splits)
    show ?thesis
    proof (cases "row_matches feq flt s (rows s ! a) conds")
      case False
      with im have "index_map s' = index_map s" by simp
      with lhs rhs False show ?thesis by (simp split: option.splits)
    next
      case True
      show ?thesis
      proof (cases "index_map s v")
        case None
        with tk True im iau have "index_map s' v =
            (if indexed_type (col_type (columns s ! pk)) then Some a else None)" by simp
        with lhs rhs None True ai show ?thesis by auto
      next
        case (Some q)
        show ?thesis
        proof (cases "q = a")
          case True
          with Some tk \<open>row_matches feq flt s (rows s ! a) conds\<close> im iau
          have "index_map s' v = Some a" by simp
          with lhs rhs Some True show ?thesis by simp
        next
          case False
          with Some tk im have "index_map s' v = Some q" by simp
          with lhs rhs Some show ?thesis by simp
        qed
      qed
    qed
  qed
qed

lemma map_upt_nth: "i < n \<Longrightarrow> map f [0 ..< n] ! i = f i"
  by simp

lemma pk_value_typed_cong:
  "columns s' = columns s \<Longrightarrow> primary_key_index s' = primary_key_index s \<Longrightarrow>
   pk_value_typed s' m = pk_value_typed s m"
  by (simp add: pk_value_typed_def split: option.splits)

lemma update_rows_spec:
  "table_ok s \<Longrightarrow> assignments_wf (columns s) m \<Longrightarrow> pk_value_typed s m \<Longrightarrow>
   length (rows s) = a + d \<Longrightarrow>
   \<exists>s'. update_rows feq flt m conds [a ..< a + d] count s
          = Inr (count + length (filter (\<lambda>i. row_matches feq flt s (rows s ! i) conds \<and>
                                              \<not> skipped_from feq flt s m conds a i) [a ..< a + d]), s') \<and>
        rows s' = map (\<lambda>i. if a \<le> i \<and> row_matches feq flt s (rows s ! i) conds \<and>
                               \<not> skipped_from feq flt s m conds a i
                            then assigned_row (columns s) m (rows s ! i) else rows s ! i)
                      [0 ..< a + d]"
proof (induction d arbitrary: s a count)
  case 0
  have "rows s = map (\<lambda>i. if a \<le> i \<and> row_matches feq flt s (rows s ! i) conds \<and>
                               \<not> skipped_from feq flt s m conds a i
                            then assigned_row (columns s) m (rows s ! i) else rows s ! i)
                      [0 ..< a]"
    using 0(4) by (intro nth_equalityI) simp_all
  then show ?case by simp
next
  case (Suc d)
  let ?Q = "\<lambda>s a i. row_matches feq flt s (rows s ! i) conds \<and> \<not> skipped_from feq flt s m conds a i"
  let ?b = "row_matches feq flt s (rows s ! a) conds \<and> \<not> pk_taken s m a"
  from Suc.prems(4) have a: "a < length (rows s)" by simp
  from update_row_spec[OF Suc.prems(1,2) a Suc.prems(3), of feq flt conds] obtain s1 where
    ok1: "table_ok s1" and c1: "columns s1 = columns s"
    and p1: "primary_key_index s1 = primary_key_index s"
    and r1: "rows s1 = (rows s)[a := assigned_row (columns s) m (rows s ! a)]"
    and im1: "index_map s1 = index_after_update s m a"
    and res: "update_row feq flt m conds a s = (if ?b then Inr (True, s1) else Inr (False, s))"
    by blast
  define s2 where "s2 = (if ?b then s1 else s)"
  have u: "update_row feq flt m conds a s = Inr (?b, s2)" using res by (simp add: s2_def)
  have ok2: "table_ok s2" using ok1 Suc.prems(1) by (simp add: s2_def)
  have c2: "columns s2 = columns s" using c1 by (simp add: s2_def)
  have p2: "primary_key_index s2 = primary_key_index s" using p1 by (simp add: s2_def)
  have r2: "rows s2 = (if ?b then (rows s)[a := assigned_row (columns s) m (rows s ! a)] else rows s)"
    using r1 by (simp add: s2_def)
  have im2: "index_map s2 = (if ?b then index_after_update s m a else index_map s)"
    using im1 by (simp add: s2_def)
  have wf2: "assignments_wf (columns s2) m" using Suc.prems(2) c2 by simp
  have ty2: "pk_value_typed s2 m" using Suc.prems(3) pk_value_typed_cong[OF c2 p2] by simp
  have len2: "length (rows s2) = Suc a + d" using Suc.prems(4) r2 by simp
  let ?c1 = "if ?b then Suc count else count"
  from Suc.IH[OF ok2 wf2 ty2 len2, of ?c1] obtain s' where
    r: "update_rows feq flt m conds [Suc a ..< Suc a + d] ?c1 s2
        = Inr (?c1 + length (filter (?Q s2 (Suc a)) [Suc a ..< Suc a + d]), s')"
    and r': "rows s' = map (\<lambda>i. if Suc a \<le> i \<and> ?Q s2 (Suc a) i
                            then assigned_row (columns s2) m (rows s2 ! i) else rows s2 ! i)
                      [0 ..< Suc a + d]"
    by blast
  have nth2: "rows s2 ! j = rows s ! j" if "j \<noteq> a" for j using r2 that by simp
  have Qa: "?Q s a a = ?b" by (simp add: skipped_from_self)
  have Q: "?Q s2 (Suc a) i = ?Q s a i" if "a < i" for i
  proof -
    have "\<forall>j. a < j \<and> j < i \<longrightarrow> rows s2 ! j = rows s ! j" using nth2 by simp
    from skipped_from_step[OF c2 p2 this im2 that]
    have "skipped_from feq flt s2 m conds (Suc a) i = skipped_from feq flt s m conds a i" .
    moreover have "rows s2 ! i = rows s ! i" using that nth2 by simp
    ultimately show ?thesis by (simp add: row_matches_columns[OF c2])
  qed
  have upt: "[a ..< a + Suc d] = a # [Suc a ..< Suc a + d]" by (simp add: upt_rec)
  have step: "update_rows feq flt m conds [a ..< a + Suc d] count s
      = update_rows feq flt m conds [Suc a ..< Suc a + d] ?c1 s2"
    using u by (simp only: upt update_rows.simps sum.case prod.case)
  have flt_eq: "filter (?Q s2 (Suc a)) [Suc a ..< Suc a + d] = filter (?Q s a) [Suc a ..< Suc a + d]"
  proof (rule filter_cong[OF refl])
    fix i assume "i \<in> set [Suc a ..< Suc a + d]"
    then have "Suc a \<le> i" by (simp only: set_upt atLeastLessThan_iff)
    then have "a < i" by simp
    from Q[OF this] show "?Q s2 (Suc a) i = ?Q s a i" .
  qed
  have cnt: "?c1 + length (filter (?Q s2 (Suc a)) [Suc a ..< Suc a + d])
      = count + length (filter (?Q s a) [a ..< a + Suc d])"
    unfolding flt_eq upt using Qa by simp
  have res': "update_rows feq flt m conds [a ..< a + Suc d] count s
      = Inr (count + length (filter (?Q s a) [a ..< a + Suc d]), s')"
    by (simp only: step r cnt)
  have len': "length (rows s') = a + Suc d" using r' by (simp del: upt_Suc)
  have nth': "rows s' ! i = (if a \<le> i \<and> ?Q s a i
        then assigned_row (columns s) m (rows s ! i) else rows s ! i)" if i: "i < Suc a + d" for i
  proof -
    have e: "rows s' ! i = (if Suc a \<le> i \<and> ?Q s2 (Suc a) i
        then assigned_row (columns s2) m (rows s2 ! i) else rows s2 ! i)"
      unfolding r' by (rule map_upt_nth[OF i])
    consider (lt) "i < a" | (eq) "i = a" | (gt) "a < i" by linarith
    then show ?thesis
    proof cases
      case lt
      with e nth2[of i] show ?thesis by simp
    next
      case eq
      with e have "rows s' ! i = rows s2 ! a" by simp
      also have "\<dots> = (if ?b then assigned_row (columns s) m (rows s ! a) else rows s ! a)"
        using r2 a by simp
      finally show ?thesis using eq Qa by simp
    next
      case gt
      with e Q[OF gt] nth2[of i] c2 show ?thesis by simp
    qed
  qed
  have rws: "rows s' = map (\<lambda>i. if a \<le> i \<and> ?Q s a i
                            then assigned_row (columns s) m (rows s ! i) else rows s ! i)
                      [0 ..< a + Suc d]"
  proof (rule nth_equalityI)
    show "length (rows s') = length (map (\<lambda>i. if a \<le> i \<and> ?Q s a i
                            then assigned_row (columns s) m (rows s ! i) else rows s ! i)
                      [0 ..< a + Suc d])" using len' by (simp del: upt_Suc)
    fix i assume "i < length (rows s')"
    then have i: "i < a + Suc d" using len' by simp
    then have i': "i < Suc a + d" by simp
    show "rows s' ! i = map (\<lambda>i. if a \<le> i \<and> ?Q s a i
                            then assigned_row (columns s) m (rows s ! i) else rows s ! i)
                      [0 ..< a + Suc d] ! i"
      unfolding map_upt_nth[OF i] by (rule nth'[OF i'])
  qed
  show ?case
    by (rule exI[of _ s']) (simp only: res' rws simp_thms)
qed

lemmas inv_eval = pk_taken_def pk_value_typed_def row_skipped_def index_map_def bt_map_def
  indexed_type_def assigned_row_def assigned_field_def

section \<open>Concrete runs of the table engine\<close>


text \<open>
  Claim C5, at a failing input.  The primary-key column \<open>id\<close> is nullable.  For a row
  with null in it, the NOT NULL check and the type check pass, and the uniqueness check
  calls \<open>std::get<DBInt>\<close> on the null value: \<open>insert_row\<close> leaves by
  \<open>std::bad_variant_access\<close>, neither returning true nor returning false.
\<close>

theorem insert_row_null_primary_key_throws:
  "insert_row [DBNull, DBText ''Ada''] (Table_new ''users'' users_cols) = Inl BadVariantAccess"
  by (simp add: table_eval)

section \<open>Primary keys, stale index entries and updates\<close>


text \<open>
  Claim C2 fails as stated.  After \<open>remove\<close> has deleted the row with key 1, the index
  still maps key 2 to position 1.  A row with key 3 is inserted at position 1, and the
  update of its key to 2 passes the uniqueness check, because the index entry of 2 points
  at the row itself: two rows now hold the primary key 2.
\<close>

theorem duplicate_primary_key_after_remove:
  "map_sum id rows
     (Table_run feq_unit flt_unit
        [InsertRow [DBInt 1, DBText ''Ada''], InsertRow [DBInt 2, DBText ''Linus''],
         Remove [id_is 1], InsertRow [DBInt 3, DBText ''Grace''],
         Update [(''id'', DBInt 2)] [id_is 3]]
        (Table_new ''users'' users_cols))
   = Inr [[DBInt 2, DBText ''Linus''], [DBInt 2, DBText ''Grace'']]"
  by (simp add: table_eval)

text \<open>
  Claim C2, amended.  For every table whose primary-key column is of type \<open>Int\<close> or
  \<open>Text\<close> (so that it has a primary-key index), after any sequence of \<open>insert_row\<close>,
  \<open>update\<close> and \<open>remove\<close> operations in which no \<open>update\<close> that assigns to the
  primary-key column comes after a \<open>remove\<close>, and in which no operation ended in an
  exception, no two rows of the table hold equal values in the primary-key column.
\<close>

theorem primary_keys_stay_distinct:
  assumes "first_primary_key cols = Some pk"
    and "col_type (cols ! pk) = CT_Int \<or> col_type (cols ! pk) = CT_Text"
    and "pk_safe pk cols False ops"
    and "Table_run feq flt ops (Table_new nm cols) = Inr t"
  shows "distinct (map (\<lambda>row. row ! pk) (rows t))"
proof -
  have "table_ok (Table_new nm cols :: 'a Table)" by (rule table_ok_new)
  moreover have "primary_key_index (Table_new nm cols :: 'a Table) = Some pk"
    using assms(1) by simp
  moreover have "indexed_type (col_type (columns (Table_new nm cols :: 'a Table) ! pk))"
    using assms(2) by (simp add: indexed_type_def)
  moreover have "pk_safe pk (columns (Table_new nm cols :: 'a Table)) False ops"
    using assms(3) by simp
  moreover have "if False then inv_weak (Table_new nm cols :: 'a Table) pk
      else inv_strong (Table_new nm cols :: 'a Table) pk"
    by (simp add: inv_strong_new)
  ultimately have "inv_weak t pk"
    using Table_run_inv[OF _ _ _ _ _ assms(4)] by blast
  then show ?thesis by (simp add: inv_weak_def)
qed

theorem primary_keys_stay_distinct_witness:
  "\<exists>t. Table_run feq_unit flt_unit
          [InsertRow [DBInt 1, DBText ''Ada''], InsertRow [DBInt 2, DBText ''Linus''],
           Update [(''id'', DBInt 5)] [id_is 1], Remove [id_is 2],
           InsertRow [DBInt 3, DBText ''Grace''], Update [(''name'', DBText ''Hopper'')] [id_is 3]]
          (Table_new ''users'' users_cols) = Inr t \<and>
       rows t = [[DBInt 5, DBText ''Ada''], [DBInt 3, DBText ''Hopper'']] \<and>
       distinct (map (\<lambda>row. row ! 0) (rows t))"
proof -
  let ?ops = "[InsertRow [DBInt 1, DBText ''Ada''], InsertRow [DBInt 2, DBText ''Linus''],
           Update [(''id'', DBInt 5)] [id_is 1], Remove [id_is 2],
           InsertRow [DBInt 3, DBText ''Grace''], Update [(''name'', DBText ''Hopper'')] [id_is 3]]
           :: unit table_op list"
  have "\<exists>t. Table_run feq_unit flt_unit ?ops (Table_new ''users'' users_cols) = Inr t \<and>
       rows t = [[DBInt 5, DBText ''Ada''], [DBInt 3, DBText ''Hopper'']]"
    by (simp add: table_eval)
  then obtain t where run: "Table_run feq_unit flt_unit ?ops (Table_new ''users'' users_cols) = Inr t"
    and r: "rows t = [[DBInt 5, DBText ''Ada''], [DBInt 3, DBText ''Hopper'']]" by blast
  have h1: "first_primary_key users_cols = Some 0" by (simp add: users_cols_def)
  have h2: "col_type (users_cols ! 0) = CT_Int \<or> col_type (users_cols ! 0) = CT_Text"
    by (simp add: users_cols_def)
  have h3: "pk_safe 0 users_cols False ?ops" by (simp add: users_cols_def)
  from primary_keys_stay_distinct[OF h1 h2 h3 run] run r show ?thesis by blast
qed




text \<open>
  Claim C6 fails as stated.  The index is stale after a \<open>remove\<close>: the row at position
  0 holds key 2, the index maps key 2 to position 1, and the row at position 1 holds key
  3.  The update of key 3 to key 2 is applied to that row and counted, although a
  different row already holds the new key.
\<close>

theorem update_counts_row_although_key_is_held:
  "\<not> isl (Table_run feq_unit flt_unit
            [InsertRow [DBInt 1, DBText ''Ada''], InsertRow [DBInt 2, DBText ''Linus''],
             Remove [id_is 1], InsertRow [DBInt 3, DBText ''Grace'']]
            (Table_new ''users'' users_cols)) \<and>
   rows (projr (Table_run feq_unit flt_unit
            [InsertRow [DBInt 1, DBText ''Ada''], InsertRow [DBInt 2, DBText ''Linus''],
             Remove [id_is 1], InsertRow [DBInt 3, DBText ''Grace'']]
            (Table_new ''users'' users_cols)))
   = [[DBInt 2, DBText ''Linus''], [DBInt 3, DBText ''Grace'']] \<and>
   map_sum id (map_prod id rows)
     (update feq_unit flt_unit [(''id'', DBInt 2)] [id_is 3]
        (projr (Table_run feq_unit flt_unit
            [InsertRow [DBInt 1, DBText ''Ada''], InsertRow [DBInt 2, DBText ''Linus''],
             Remove [id_is 1], InsertRow [DBInt 3, DBText ''Grace'']]
            (Table_new ''users'' users_cols))))
   = Inr (1, [[DBInt 2, DBText ''Linus''], [DBInt 2, DBText ''Grace'']])"
  by (simp add: table_eval)

text \<open>
  Claim C6, amended.  Take a table in any state reached by the engine's operations, and an
  \<open>update\<close> call whose value for an indexed primary-key column, if it assigns one, has
  the column's type.  The call returns.  A row that matches the conditions is skipped
  entirely exactly when a value is assigned to the primary-key column and the index, as it
  stands when the row loop reaches the row, maps that value to a position other than the
  row's own: either the index held such an entry at the call, whether or not a live row
  holds the value, or it held none and an earlier matching row of the same call has taken
  the value.  Every other matching row is updated field by field, each field taking the
  value assigned to its column, except that a non-null value of another type than the
  column's is skipped for that field only.  The returned count is the number of the rows
  so updated, and all other rows are unchanged.
\<close>

theorem update_skips_field_or_row:
  assumes "Table_run feq flt ops (Table_new nm cols) = Inr t"
    and "pk_value_typed t (resolve_updates cols updates [])"
  shows "\<exists>t'. update feq flt updates conds t =
           Inr (length (filter (\<lambda>i. row_matches feq flt t (rows t ! i) conds \<and>
                                      \<not> row_skipped feq flt t (resolve_updates cols updates []) conds i)
                                [0 ..< length (rows t)]), t') \<and>
         rows t' = map (\<lambda>i. if row_matches feq flt t (rows t ! i) conds \<and>
                                \<not> row_skipped feq flt t (resolve_updates cols updates []) conds i
                             then assigned_row cols (resolve_updates cols updates []) (rows t ! i)
                             else rows t ! i)
                       [0 ..< length (rows t)]"
proof -
  let ?m = "resolve_updates cols updates []"
  from Table_run_ok[OF table_ok_new assms(1)] have ok: "table_ok t" and c: "columns t = cols"
    by simp_all
  have wf: "assignments_wf (columns t) ?m"
    using resolve_updates_wf[OF assignments_wf_Nil, of cols updates] c by simp
  have len: "length (rows t) = 0 + length (rows t)" by simp
  from update_rows_spec[OF ok wf assms(2) len, of feq flt conds 0] obtain t' where
    u: "update_rows feq flt ?m conds [0 ..< 0 + length (rows t)] 0 t
          = Inr (0 + length (filter (\<lambda>i. row_matches feq flt t (rows t ! i) conds \<and>
                                  \<not> skipped_from feq flt t ?m conds 0 i) [0 ..< 0 + length (rows t)]), t')"
    and r: "rows t' = map (\<lambda>i. if 0 \<le> i \<and> row_matches feq flt t (rows t ! i) conds \<and>
                               \<not> skipped_from feq flt t ?m conds 0 i
                            then assigned_row (columns t) ?m (rows t ! i) else rows t ! i)
                      [0 ..< 0 + length (rows t)]"
    by blast
  have "update feq flt updates conds t =
           Inr (length (filter (\<lambda>i. row_matches feq flt t (rows t ! i) conds \<and>
                                      \<not> row_skipped feq flt t ?m conds i)
                                [0 ..< length (rows t)]), t')"
    using u by (simp add: update_def c row_skipped_from)
  moreover have "rows t' = map (\<lambda>i. if row_matches feq flt t (rows t ! i) conds \<and>
                                \<not> row_skipped feq flt t ?m conds i
                             then assigned_row cols ?m (rows t ! i)
                             else rows t ! i)
                       [0 ..< length (rows t)]"
    using r by (simp add: c row_skipped_from)
  ultimately show ?thesis by blast
qed

theorem update_skips_field_or_row_witness:
  "\<exists>t t1 t2 t3.
     Table_run feq_unit flt_unit
       [InsertRow [DBInt 1, DBText ''Ada''], InsertRow [DBInt 2, DBText ''Linus''],
        InsertRow [DBInt 3, DBText ''Grace'']]
       (Table_new ''users'' users_cols) = Inr t \<and>
     update feq_unit flt_unit [(''id'', DBInt 2)] [id_is 1] t = Inr (0, t1) \<and>
     rows t1 = [[DBInt 1, DBText ''Ada''], [DBInt 2, DBText ''Linus''], [DBInt 3, DBText ''Grace'']] \<and>
     update feq_unit flt_unit [(''id'', DBInt 5), (''name'', DBInt 7)] [] t = Inr (1, t2) \<and>
     rows t2 = [[DBInt 5, DBText ''Ada''], [DBInt 2, DBText ''Linus''], [DBInt 3, DBText ''Grace'']] \<and>
     update feq_unit flt_unit [(''name'', DBText ''Hopper''), (''age'', DBInt 3)] [] t = Inr (3, t3) \<and>
     rows t3 = [[DBInt 1, DBText ''Hopper''], [DBInt 2, DBText ''Hopper''], [DBInt 3, DBText ''Hopper'']]"
proof -
  let ?ops = "[InsertRow [DBInt 1, DBText ''Ada''], InsertRow [DBInt 2, DBText ''Linus''],
        InsertRow [DBInt 3, DBText ''Grace'']] :: unit table_op list"
  let ?u1 = "[(''id'', DBInt 2)] :: (string \<times> unit DBValue) list"
  let ?u2 = "[(''id'', DBInt 5), (''name'', DBInt 7)] :: (string \<times> unit DBValue) list"
  let ?u3 = "[(''name'', DBText ''Hopper''), (''age'', DBInt 3)] :: (string \<times> unit DBValue) list"
  let ?m1 = "resolve_updates users_cols ?u1 []"
  let ?m2 = "resolve_updates users_cols ?u2 []"
  let ?m3 = "resolve_updates users_cols ?u3 []"
  have ex: "\<exists>j::nat. j < 2" by (rule exI[of _ 0]) simp
  have "\<exists>t. Table_run feq_unit flt_unit ?ops (Table_new ''users'' users_cols) = Inr t \<and>
      rows t = [[DBInt 1, DBText ''Ada''], [DBInt 2, DBText ''Linus''], [DBInt 3, DBText ''Grace'']] \<and>
      columns t = users_cols \<and>
      pk_value_typed t ?m1 \<and> pk_value_typed t ?m2 \<and> pk_value_typed t ?m3 \<and>
      row_skipped feq_unit flt_unit t ?m1 [id_is 1] 0 \<and>
      \<not> row_skipped feq_unit flt_unit t ?m2 [] 0 \<and>
      row_skipped feq_unit flt_unit t ?m2 [] 1 \<and>
      row_skipped feq_unit flt_unit t ?m2 [] 2 \<and>
      \<not> row_skipped feq_unit flt_unit t ?m3 [] 0 \<and>
      \<not> row_skipped feq_unit flt_unit t ?m3 [] 1 \<and>
      \<not> row_skipped feq_unit flt_unit t ?m3 [] 2"
    using ex by (simp add: table_eval inv_eval row_skipped_def)
  then obtain t where run: "Table_run feq_unit flt_unit ?ops (Table_new ''users'' users_cols) = Inr t"
    and r: "rows t = [[DBInt 1, DBText ''Ada''], [DBInt 2, DBText ''Linus''], [DBInt 3, DBText ''Grace'']]"
    and c: "columns t = users_cols"
    and ty: "pk_value_typed t ?m1" "pk_value_typed t ?m2" "pk_value_typed t ?m3"
    and s1: "row_skipped feq_unit flt_unit t ?m1 [id_is 1] 0"
    and s2: "\<not> row_skipped feq_unit flt_unit t ?m2 [] 0" "row_skipped feq_unit flt_unit t ?m2 [] 1"
      "row_skipped feq_unit flt_unit t ?m2 [] 2"
    and s3: "\<not> row_skipped feq_unit flt_unit t ?m3 [] 0" "\<not> row_skipped feq_unit flt_unit t ?m3 [] 1"
      "\<not> row_skipped feq_unit flt_unit t ?m3 [] 2"
    by blast
  have len: "[0 ..< length (rows t)] = [0, 1, 2]" using r by (simp add: upt_rec)
  have m1: "row_matches feq_unit flt_unit t (rows t ! 0) [id_is 1]"
    "\<not> row_matches feq_unit flt_unit t (rows t ! 1) [id_is 1]"
    "\<not> row_matches feq_unit flt_unit t (rows t ! 2) [id_is 1]"
    using r c by (simp_all add: row_matches_def evaluate_def id_is_def users_cols_def)
  have m0: "row_matches feq_unit flt_unit t row []" for row by (simp add: row_matches_def)
  from update_skips_field_or_row[OF run ty(1), of "[id_is 1]"] obtain t1 where
    a: "update feq_unit flt_unit ?u1 [id_is 1] t = Inr (0, t1)"
    and ra: "rows t1 = rows t"
    unfolding len using m1 s1 r by auto
  from update_skips_field_or_row[OF run ty(2), of "[]"] obtain t2 where
    b: "update feq_unit flt_unit ?u2 [] t = Inr (1, t2)"
    and rb: "rows t2 = [assigned_row users_cols ?m2 (rows t ! 0), rows t ! 1, rows t ! 2]"
    unfolding len using m0 s2 by auto
  from update_skips_field_or_row[OF run ty(3), of "[]"] obtain t3 where
    d: "update feq_unit flt_unit ?u3 [] t = Inr (3, t3)"
    and rd: "rows t3 = [assigned_row users_cols ?m3 (rows t ! 0), assigned_row users_cols ?m3 (rows t ! 1),
        assigned_row users_cols ?m3 (rows t ! 2)]"
    unfolding len using m0 s3 by auto
  have "rows t2 = [[DBInt 5, DBText ''Ada''], [DBInt 2, DBText ''Linus''], [DBInt 3, DBText ''Grace'']]"
    using rb r by (simp add: inv_eval users_cols_def)
  moreover have "rows t3 = [[DBInt 1, DBText ''Hopper''], [DBInt 2, DBText ''Hopper''],
      [DBInt 3, DBText ''Hopper'']]"
    using rd r by (simp add: inv_eval users_cols_def)
  ultimately show ?thesis using run a ra r b d by auto
qed

end
